theory Spec2Isabelle
  imports Complex_Main "HOL-Library.Log_Nat"
begin

section \<open>DCapture.js: the capture session and its encoders\<close>

text \<open>
  A shallow embedding of \<^verbatim>\<open>src/DCapture.js\<close>, \<^verbatim>\<open>src/DCFrameEncoder.js\<close>,
  \<^verbatim>\<open>src/DCTarEncoder.js\<close>, \<^verbatim>\<open>src/DCPNGEncoder.js\<close>, \<^verbatim>\<open>src/DCJPEGEncoder.js\<close>,
  \<^verbatim>\<open>src/DCWhammyEncoder.js\<close>, \<^verbatim>\<open>src/DCGIFEncoder.js\<close> and
  \<^verbatim>\<open>src/DCMediaRecorderEncoder.js\<close>. Every method takes the object it is called on as
  an argument and returns the object as the method leaves it. An exception is a value of
  type \<open>exn\<close>; a method that can throw returns \<open>exn + _\<close>, with \<open>Inl\<close> the exception.
\<close>

subsection \<open>Exceptions\<close>

datatype exn = Error string | TypeError string | ReferenceError string

subsection \<open>pad\<close>

text \<open>
  \<^verbatim>\<open>n + ''\<close> for a counter \<open>n\<close>: the decimal digits of a natural number, most significant
  first (the counters of this program start at zero and only go up by one).
\<close>

definition digit_char :: "nat \<Rightarrow> char" where
  "digit_char d = ''0123456789'' ! d"

fun string_of_nat :: "nat \<Rightarrow> string" where
  "string_of_nat n =
     (if n < 10 then [digit_char n]
      else string_of_nat (n div 10) @ [digit_char (n mod 10)])"

declare string_of_nat.simps [simp del]

text \<open>
  \<^verbatim>\<open>pad(n, width = 6)\<close>: the digits when there are at least \<open>width\<close> of them, and
  otherwise \<^verbatim>\<open>new Array(width - n.length + 1).join('0') + n\<close>, which is
  \<open>width - n.length\<close> zeros before the digits. Every call in the program leaves the
  width at its default.
\<close>

definition pad_width :: "nat \<Rightarrow> nat \<Rightarrow> string" where
  "pad_width n width =
     (let s = string_of_nat n
      in if length s \<ge> width then s
         else replicate (width - length s) CHR ''0'' @ s)"

definition pad :: "nat \<Rightarrow> string" where
  "pad n = pad_width n 6"

text \<open>
  Reading a decimal entry name back as a number; used only to state that names grow.
\<close>

definition digit_val :: "char \<Rightarrow> nat" where
  "digit_val c = of_char c - 48"

definition nat_of_string :: "string \<Rightarrow> nat" where
  "nat_of_string s = foldl (\<lambda>acc c. 10 * acc + digit_val c) 0 s"

subsection \<open>DCFrameEncoder: the listener table\<close>

text \<open>
  \<^verbatim>\<open>this.eventListeners = {}\<close> is a plain object used as a table from event names to
  arrays of callbacks. A plain object inherits the properties of \<^verbatim>\<open>Object.prototype\<close>,
  so \<^verbatim>\<open>this.eventListeners[event]\<close> is one of: the array stored under the name (an own
  property), an inherited member (a function, or the prototype object itself for
  \<^verbatim>\<open>__proto__\<close>; each is truthy and has neither \<^verbatim>\<open>push\<close> nor \<^verbatim>\<open>forEach\<close>), or
  \<^verbatim>\<open>undefined\<close>.
\<close>

definition Object_prototype_names :: "string list" where
  "Object_prototype_names =
     [''constructor'', ''hasOwnProperty'', ''isPrototypeOf'', ''propertyIsEnumerable'',
      ''toLocaleString'', ''toString'', ''valueOf'', ''__proto__'',
      ''__defineGetter__'', ''__defineSetter__'', ''__lookupGetter__'', ''__lookupSetter__'']"

datatype 'cb slot = Undefined | Inherited | Listeners "'cb list"

definition get_slot :: "(string \<rightharpoonup> 'cb list) \<Rightarrow> string \<Rightarrow> 'cb slot" where
  "get_slot tbl ev =
     (case tbl ev of
        Some cbs \<Rightarrow> Listeners cbs
      | None \<Rightarrow> if ev \<in> set Object_prototype_names then Inherited else Undefined)"

text \<open>
  A callback receives the event data and acts on the world outside the encoder (type
  \<open>'w\<close>: a console, a progress bar, the caller's variables); it returns the world as it
  leaves it, or throws.
\<close>

type_synonym ('d, 'w) callback = "'d \<Rightarrow> 'w \<Rightarrow> exn + 'w"

record ('s, 'd, 'w) DCFrameEncoder =
  settings :: 's
  state :: string
  eventListeners :: "string \<rightharpoonup> ('d, 'w) callback list"

definition new_DCFrameEncoder :: "'s \<Rightarrow> ('s, 'd, 'w) DCFrameEncoder" where
  "new_DCFrameEncoder st = \<lparr>settings = st, state = ''idle'', eventListeners = Map.empty\<rparr>"

text \<open>
  \<^verbatim>\<open>on(event, callback)\<close>: the table gets an empty array under the name when the lookup
  is falsy, then the callback is pushed. Under an inherited name the lookup is truthy,
  nothing is stored, and \<^verbatim>\<open>push\<close> is not a function of the value found.
\<close>

definition on ::
  "string \<Rightarrow> ('d, 'w) callback \<Rightarrow> ('s, 'd, 'w) DCFrameEncoder \<Rightarrow> exn + ('s, 'd, 'w) DCFrameEncoder"
where
  "on ev cb e =
     (let tbl = (case get_slot (eventListeners e) ev of
                   Undefined \<Rightarrow> (eventListeners e)(ev \<mapsto> [])
                 | _ \<Rightarrow> eventListeners e)
      in case get_slot tbl ev of
           Listeners cbs \<Rightarrow> Inr (e\<lparr>eventListeners := tbl(ev \<mapsto> cbs @ [cb])\<rparr>)
         | _ \<Rightarrow> Inl (TypeError ''this.eventListeners[event].push is not a function''))"

text \<open>
  \<^verbatim>\<open>Array.prototype.forEach\<close> with a callback that may throw: the elements in order, and
  the first exception ends the loop and is the result.
\<close>

fun forEach :: "('a \<Rightarrow> 'w \<Rightarrow> exn + 'w) \<Rightarrow> 'a list \<Rightarrow> 'w \<Rightarrow> exn + 'w" where
  "forEach f [] w = Inr w"
| "forEach f (x # xs) w = (case f x w of Inl err \<Rightarrow> Inl err | Inr w' \<Rightarrow> forEach f xs w')"

text \<open>
  \<^verbatim>\<open>emit(event, data)\<close>: when the lookup is truthy, \<^verbatim>\<open>forEach\<close> over it calls each
  callback with the data.
\<close>

definition emit :: "string \<Rightarrow> 'd \<Rightarrow> ('s, 'd, 'w) DCFrameEncoder \<Rightarrow> 'w \<Rightarrow> exn + 'w" where
  "emit ev d e w =
     (case get_slot (eventListeners e) ev of
        Undefined \<Rightarrow> Inr w
      | Inherited \<Rightarrow> Inl (TypeError ''this.eventListeners[event].forEach is not a function'')
      | Listeners cbs \<Rightarrow> forEach (\<lambda>cb. cb d) cbs w)"

text \<open>The other methods of the base class.\<close>

definition base_start :: "('s, 'd, 'w) DCFrameEncoder \<Rightarrow> ('s, 'd, 'w) DCFrameEncoder" where
  "base_start e = e\<lparr>state := ''recording''\<rparr>"

definition base_stop :: "('s, 'd, 'w) DCFrameEncoder \<Rightarrow> ('s, 'd, 'w) DCFrameEncoder" where
  "base_stop e = e\<lparr>state := ''finished''\<rparr>"

definition base_dispose :: "('s, 'd, 'w) DCFrameEncoder \<Rightarrow> ('s, 'd, 'w) DCFrameEncoder" where
  "base_dispose e = e\<lparr>eventListeners := Map.empty\<rparr>"

text \<open>A sequence of \<^verbatim>\<open>on\<close> calls, in order; the first exception ends it.\<close>

fun register ::
  "(string \<times> ('d, 'w) callback) list \<Rightarrow> ('s, 'd, 'w) DCFrameEncoder \<Rightarrow> exn + ('s, 'd, 'w) DCFrameEncoder"
where
  "register [] e = Inr e"
| "register (r # rs) e =
     (case on (fst r) (snd r) e of Inl err \<Rightarrow> Inl err | Inr e' \<Rightarrow> register rs e')"

text \<open>The callbacks registered under a name by a sequence of registrations, in order.\<close>

definition registered_for :: "string \<Rightarrow> (string \<times> 'cb) list \<Rightarrow> 'cb list" where
  "registered_for ev regs = map snd (filter (\<lambda>r. fst r = ev) regs)"

text \<open>The array the table holds under a name as an own property (none: the empty list).\<close>

definition own_listeners :: "(string \<rightharpoonup> 'cb list) \<Rightarrow> string \<Rightarrow> 'cb list" where
  "own_listeners tbl ev = (case tbl ev of None \<Rightarrow> [] | Some cbs \<Rightarrow> cbs)"

subsection \<open>Settings, the platform, frames\<close>

text \<open>
  The settings object after \<^verbatim>\<open>Object.assign\<close> has merged the caller's values over the
  defaults. Rates and times are given as rationals; where the code divides or compares
  them, the number a rational stands for is its \<open>double\<close> (see Numbers below). The two
  limits that count frames are integers.
\<close>

record settings =
  framerate :: rat
  verbose :: bool
  display :: bool
  motionBlurFrames :: int
  quality :: rat
  format :: string
  workersPath :: string
  timeLimit :: rat
  frameLimit :: int
  autoSaveTime :: rat

definition default_settings :: settings where
  "default_settings =
     \<lparr>framerate = 60, verbose = False, display = False, motionBlurFrames = 0, quality = 100,
      format = ''webm'', workersPath = [], timeLimit = 0, frameLimit = 0, autoSaveTime = 0\<rparr>"

text \<open>
  The globals the encoders look up when they run: \<^verbatim>\<open>Whammy\<close>, \<^verbatim>\<open>MediaRecorder\<close>,
  \<^verbatim>\<open>GIF\<close>, \<^verbatim>\<open>Tar\<close> and \<^verbatim>\<open>download\<close>. Each is there or not; one that is there
  works (its constructor and methods return normally).
\<close>

record platform =
  has_Whammy :: bool
  has_MediaRecorder :: bool
  has_GIF :: bool
  has_Tar :: bool
  has_download :: bool

text \<open>
  A blob is what \<^verbatim>\<open>FileReader.readAsArrayBuffer\<close> makes of it: the bytes handed to
  \<^verbatim>\<open>onload\<close>, or none when \<^verbatim>\<open>onerror\<close> fires instead. A canvas has a size and is what
  \<^verbatim>\<open>toBlob\<close> makes of it: the call throws, or its callback receives \<^verbatim>\<open>null\<close>, or a blob.
\<close>

type_synonym bytes = "nat list"

datatype blob = Blob (read_result: "bytes option")

datatype conversion = Throws | NoBlob | Gives blob

datatype canvas = Canvas (width: nat) (height: nat) (toBlob: conversion)

text \<open>
  Callbacks that the platform runs later (the callback of \<^verbatim>\<open>toBlob\<close>, the reader's
  \<^verbatim>\<open>onload\<close> and \<^verbatim>\<open>onerror\<close>) run here at once, each before the next call is made: the
  program's results are read once every request has completed, in the order the requests
  were made. An exception thrown inside such a callback reaches no caller; it is returned
  beside the encoder as the uncaught exception of the call.
\<close>

subsection \<open>Numbers\<close>

text \<open>
  A JavaScript number is an IEEE 754 double: \<^verbatim>\<open>NaN\<close>, or a sign (\<open>True\<close> for minus) with a
  magnitude, which is infinite or a rational \<^verbatim>\<open>m * 2^e\<close> with \<^verbatim>\<open>m < 2^53\<close> and
  \<^verbatim>\<open>-1074 <= e <= 971\<close>; both zeros are there. \<open>exponent x\<close> is the integer part of the
  binary logarithm of a positive rational. \<open>round_magnitude\<close> rounds a non-negative
  rational to the nearest magnitude, a tie to the one with the even significand: the
  spacing of the magnitudes is \<^verbatim>\<open>2^(e-52)\<close> at exponent \<open>e\<close>, that of exponent \<open>-1022\<close>
  below it (the subnormal range), and what rounds to \<^verbatim>\<open>2^1024\<close> or more is infinite.
  \<open>double x\<close> is the number a numeric literal of value \<open>x\<close> denotes, and so the
  number a setting given as the rational \<open>x\<close> holds. \<open>number_divide\<close> is \<^verbatim>\<open>/\<close>, and
  \<open>number_ge\<close> and \<open>number_gt\<close> are \<^verbatim>\<open>>=\<close> and \<^verbatim>\<open>>\<close>, false when an operand is
  \<^verbatim>\<open>NaN\<close>. Counters (of frames, of milliseconds) are integers, which a number holds
  exactly below \<^verbatim>\<open>2^53\<close>.
\<close>

datatype magnitude = Finite rat | Infinite

datatype number = NaN | Signed bool magnitude

definition exponent :: "rat \<Rightarrow> int" where
  "exponent x =
     (case quotient_of x of
        (p, d) \<Rightarrow> (let k = bitlen p - bitlen d in if 2 powi k \<le> x then k else k - 1))"

definition round_half_even :: "rat \<Rightarrow> int" where
  "round_half_even q =
     (let n = \<lfloor>q\<rfloor>; r = q - of_int n
      in if r < 1 / 2 then n else if 1 / 2 < r then n + 1 else if even n then n else n + 1)"

definition overflow_threshold :: rat where
  "overflow_threshold = 2 powi 1024"

definition round_magnitude :: "rat \<Rightarrow> magnitude" where
  "round_magnitude x =
     (if x = 0 then Finite 0
      else (let e = max (exponent x) (- 1022);
                q = 2 powi (e - 52);
                y = of_int (round_half_even (x / q)) * q
            in if overflow_threshold \<le> y then Infinite else Finite y))"

definition double :: "rat \<Rightarrow> number" where
  "double x = Signed (x < 0) (round_magnitude \<bar>x\<bar>)"

definition number_divide :: "number \<Rightarrow> number \<Rightarrow> number" where
  "number_divide a b =
     (case (a, b) of
        (Signed s x, Signed t y) \<Rightarrow>
          (case (x, y) of
             (Infinite, Infinite) \<Rightarrow> NaN
           | (Infinite, Finite v) \<Rightarrow> Signed (s \<noteq> t) Infinite
           | (Finite u, Infinite) \<Rightarrow> Signed (s \<noteq> t) (Finite 0)
           | (Finite u, Finite v) \<Rightarrow>
               if v = 0 then (if u = 0 then NaN else Signed (s \<noteq> t) Infinite)
               else Signed (s \<noteq> t) (round_magnitude (u / v)))
      | _ \<Rightarrow> NaN)"

fun magnitude_le :: "magnitude \<Rightarrow> magnitude \<Rightarrow> bool" where
  "magnitude_le x Infinite = True"
| "magnitude_le Infinite (Finite v) = False"
| "magnitude_le (Finite u) (Finite v) = (u \<le> v)"

definition number_ge :: "number \<Rightarrow> number \<Rightarrow> bool" where
  "number_ge a b =
     (case (a, b) of
        (Signed s x, Signed t y) \<Rightarrow>
          (if s then (if t then magnitude_le x y else x = Finite 0 \<and> y = Finite 0)
           else (if t then True else magnitude_le y x))
      | _ \<Rightarrow> False)"

definition number_gt :: "number \<Rightarrow> number \<Rightarrow> bool" where
  "number_gt a b = (number_ge a b \<and> \<not> number_ge b a)"

subsection \<open>What every concrete encoder holds\<close>

text \<open>
  The concrete encoders keep the settings and the state of the base class and set
  \<^verbatim>\<open>extension\<close> and \<^verbatim>\<open>mimeType\<close> in their constructors. \<open>listeners\<close> lists the
  event names a listener has been attached under, in order. The calls of
  \<^verbatim>\<open>this.emit(event, data)\<close> are recorded, in order, in \<open>emitted\<close>; what \<^verbatim>\<open>emit\<close> does
  with the listeners of an event is the function \<open>emit\<close> above.
\<close>

datatype payload = NoData | Message string

record encoder_base =
  settings :: settings
  state :: string
  listeners :: "string list"
  extension :: string
  mimeType :: string
  emitted :: "(string \<times> payload) list"

definition emit_logged :: "string \<Rightarrow> payload \<Rightarrow> 'a encoder_base_scheme \<Rightarrow> 'a encoder_base_scheme" where
  "emit_logged ev d e = e\<lparr>emitted := emitted e @ [(ev, d)]\<rparr>"

definition step :: "'a encoder_base_scheme \<Rightarrow> 'a encoder_base_scheme" where
  "step e = emit_logged ''step'' NoData e"

subsection \<open>DCTarEncoder\<close>

text \<open>
  The \<^verbatim>\<open>Tar\<close> object is the list of the entries appended to it, a name and the bytes
  each; \<^verbatim>\<open>tape.save()\<close> returns them. \<open>saved\<close> records the archives handed to a
  \<^verbatim>\<open>save\<close> callback, \<open>downloads\<close> the calls of \<^verbatim>\<open>download(blob, name, mimeType)\<close>.
  \<^verbatim>\<open>this.filename\<close> is never assigned before the constructor reads it, so
  \<^verbatim>\<open>baseFilename\<close> is \<^verbatim>\<open>undefined\<close> (\<open>None\<close>), which string concatenation prints.
\<close>

type_synonym tar_file = "(string \<times> bytes) list"

record DCTarEncoder = encoder_base +
  fileExtension :: string
  baseFilename :: "string option"
  filename :: "string option"
  tape :: "tar_file option"
  count :: nat
  part :: nat
  frames :: nat
  saved :: "tar_file list"
  downloads :: "(tar_file \<times> string \<times> string) list"

definition js_string :: "string option \<Rightarrow> string" where
  "js_string v = (case v of None \<Rightarrow> ''undefined'' | Some s \<Rightarrow> s)"

definition new_DCTarEncoder :: "settings \<Rightarrow> DCTarEncoder" where
  "new_DCTarEncoder st =
     \<lparr>settings = st, state = ''idle'', listeners = [], extension = ''.tar'',
      mimeType = ''application/x-tar'', emitted = [],
      fileExtension = [], baseFilename = None, filename = None, tape = None,
      count = 0, part = 1, frames = 0, saved = [], downloads = []\<rparr>"

text \<open>
  \<^verbatim>\<open>dispose()\<close>: \<^verbatim>\<open>new Tar()\<close> throws a ReferenceError when there is no \<^verbatim>\<open>Tar\<close>, before
  anything is assigned; the handler reports it. \<^verbatim>\<open>start()\<close> is \<^verbatim>\<open>this.dispose()\<close>.
\<close>

definition DCTarEncoder_dispose :: "platform \<Rightarrow> DCTarEncoder \<Rightarrow> DCTarEncoder" where
  "DCTarEncoder_dispose pf e =
     (if has_Tar pf then e\<lparr>tape := Some [], count := 0\<rparr>
      else emit_logged ''error'' (Message ''Could not create Tar instance'') e)"

definition DCTarEncoder_start :: "platform \<Rightarrow> DCTarEncoder \<Rightarrow> DCTarEncoder" where
  "DCTarEncoder_start pf e = DCTarEncoder_dispose pf e"

text \<open>
  \<^verbatim>\<open>save(callback)\<close>. The callback is a function of the archive that acts on the encoder
  (the one \<^verbatim>\<open>add\<close> passes does), or \<open>None\<close> when the caller passed nothing; calling
  \<^verbatim>\<open>undefined\<close> is a TypeError.
\<close>

definition DCTarEncoder_save ::
  "(tar_file \<Rightarrow> DCTarEncoder \<Rightarrow> exn + DCTarEncoder) option \<Rightarrow> DCTarEncoder \<Rightarrow> exn + DCTarEncoder"
where
  "DCTarEncoder_save callback e =
     (case tape e of
        None \<Rightarrow> Inr (emit_logged ''error'' (Message ''No tape available for saving'') e)
      | Some t \<Rightarrow>
          (case callback of
             None \<Rightarrow> Inl (TypeError ''callback is not a function'')
           | Some cb \<Rightarrow> cb t (e\<lparr>saved := saved e @ [t]\<rparr>)))"

text \<open>
  \<^verbatim>\<open>this.settings.autoSaveTime > 0 &&
  this.frames / this.settings.framerate >= this.settings.autoSaveTime\<close>, at frame count
  \<open>n\<close>, in the arithmetic of numbers: the quotient is rounded before it is compared.
\<close>

definition autoSave_due :: "settings \<Rightarrow> nat \<Rightarrow> bool" where
  "autoSave_due st n =
     (number_gt (double (autoSaveTime st)) (double 0) \<and>
      number_ge (number_divide (double (of_nat n)) (double (settings.framerate st)))
        (double (autoSaveTime st)))"

text \<open>The callback \<^verbatim>\<open>add\<close> passes to \<^verbatim>\<open>save\<close> when an auto-save is due.\<close>

definition autoSave_callback :: "platform \<Rightarrow> tar_file \<Rightarrow> DCTarEncoder \<Rightarrow> exn + DCTarEncoder" where
  "autoSave_callback pf blob e =
     (let e1 = e\<lparr>filename := Some (js_string (baseFilename e) @ ''-part-'' @ pad (part e))\<rparr>;
          e2 = (if has_download pf
                then e1\<lparr>downloads := downloads e1 @
                          [(blob, js_string (filename e1) @ extension e1, mimeType e1)]\<rparr>
                else emit_logged ''error'' (Message ''Download function not available'') e1);
          c = count e2;
          e3 = DCTarEncoder_dispose pf e2;
          e4 = e3\<lparr>count := c + 1\<rparr>;
          e5 = e4\<lparr>part := part e4 + 1\<rparr>;
          e6 = e5\<lparr>filename := Some (js_string (baseFilename e5) @ ''-part-'' @ pad (part e5))\<rparr>;
          e7 = e6\<lparr>frames := 0\<rparr>
      in Inr (step e7))"

text \<open>
  \<^verbatim>\<open>fileReader.onload\<close>: the entry is appended under \<^verbatim>\<open>pad(this.count) + this.fileExtension\<close>;
  with no tape, \<^verbatim>\<open>this.tape.append\<close> is a TypeError.
\<close>

definition onload :: "platform \<Rightarrow> bytes \<Rightarrow> DCTarEncoder \<Rightarrow> exn + DCTarEncoder" where
  "onload pf result e =
     (case tape e of
        None \<Rightarrow> Inl (TypeError ''Cannot read properties of null (reading append)'')
      | Some t \<Rightarrow>
          (let e1 = e\<lparr>tape := Some (t @ [(pad (count e) @ fileExtension e, result)])\<rparr>
           in if autoSave_due (settings e1) (frames e1)
              then DCTarEncoder_save (Some (autoSave_callback pf)) e1
              else Inr (step (e1\<lparr>count := count e1 + 1, frames := frames e1 + 1\<rparr>))))"

definition onerror :: "DCTarEncoder \<Rightarrow> DCTarEncoder" where
  "onerror e = emit_logged ''error'' (Message ''Error reading blob'') e"

text \<open>\<^verbatim>\<open>add(blob)\<close>: the reader is started, and one of its two handlers runs.\<close>

definition DCTarEncoder_add :: "platform \<Rightarrow> blob \<Rightarrow> DCTarEncoder \<Rightarrow> exn + DCTarEncoder" where
  "DCTarEncoder_add pf b e =
     (case read_result b of
        Some result \<Rightarrow> onload pf result e
      | None \<Rightarrow> Inr (onerror e))"

text \<open>A sequence of \<^verbatim>\<open>add\<close> calls, each completing before the next.\<close>

fun adds :: "platform \<Rightarrow> blob list \<Rightarrow> DCTarEncoder \<Rightarrow> exn + DCTarEncoder" where
  "adds pf [] e = Inr e"
| "adds pf (b # bs) e =
     (case DCTarEncoder_add pf b e of Inl err \<Rightarrow> Inl err | Inr e' \<Rightarrow> adds pf bs e')"

subsection \<open>DCPNGEncoder and DCJPEGEncoder\<close>

text \<open>
  The two subclasses set \<^verbatim>\<open>fileExtension\<close> (and a blob type and quality that only
  \<^verbatim>\<open>toBlob\<close> reads). \<^verbatim>\<open>add(canvas)\<close> asks for a blob inside \<^verbatim>\<open>try\<close>; the callback drops a
  \<^verbatim>\<open>null\<close> blob with an \<^verbatim>\<open>error\<close> event and passes any other to \<^verbatim>\<open>super.add\<close>. The
  callback runs outside the \<^verbatim>\<open>try\<close>, so what it throws is uncaught.
\<close>

definition new_DCPNGEncoder :: "settings \<Rightarrow> DCTarEncoder" where
  "new_DCPNGEncoder st = (new_DCTarEncoder st)\<lparr>fileExtension := ''.png''\<rparr>"

definition new_DCJPEGEncoder :: "settings \<Rightarrow> DCTarEncoder" where
  "new_DCJPEGEncoder st = (new_DCTarEncoder st)\<lparr>fileExtension := ''.jpg''\<rparr>"

definition toBlob_callback :: "platform \<Rightarrow> blob option \<Rightarrow> DCTarEncoder \<Rightarrow> DCTarEncoder \<times> exn option" where
  "toBlob_callback pf b e =
     (case b of
        None \<Rightarrow> (emit_logged ''error'' (Message ''Failed to create blob from canvas'') e, None)
      | Some b' \<Rightarrow>
          (case DCTarEncoder_add pf b' e of
             Inl err \<Rightarrow> (e, Some err)
           | Inr e' \<Rightarrow> (e', None)))"

definition DCPNGEncoder_add :: "platform \<Rightarrow> canvas \<Rightarrow> DCTarEncoder \<Rightarrow> DCTarEncoder \<times> exn option" where
  "DCPNGEncoder_add pf cv e =
     (case toBlob cv of
        Throws \<Rightarrow> (emit_logged ''error'' (Message ''Error capturing canvas as PNG'') e, None)
      | NoBlob \<Rightarrow> toBlob_callback pf None e
      | Gives b \<Rightarrow> toBlob_callback pf (Some b) e)"

definition DCJPEGEncoder_add :: "platform \<Rightarrow> canvas \<Rightarrow> DCTarEncoder \<Rightarrow> DCTarEncoder \<times> exn option" where
  "DCJPEGEncoder_add pf cv e =
     (case toBlob cv of
        Throws \<Rightarrow> (emit_logged ''error'' (Message ''Error capturing canvas as JPEG'') e, None)
      | NoBlob \<Rightarrow> toBlob_callback pf None e
      | Gives b \<Rightarrow> toBlob_callback pf (Some b) e)"

subsection \<open>Reading an archive\<close>

text \<open>
  Names for stating what an archive holds: the name \<^verbatim>\<open>add\<close> gives the entry it appends
  at counter \<open>k\<close>; the names of \<open>n\<close> entries numbered from \<open>c\<close> on; the number a name
  carries before its extension; a blob the reader can load; and the archives of an
  encoder, those it has handed to a \<^verbatim>\<open>save\<close> callback followed by the tape it holds.
\<close>

definition entry_name :: "string \<Rightarrow> nat \<Rightarrow> string" where
  "entry_name ext k = pad k @ ext"

definition numbered :: "string \<Rightarrow> nat \<Rightarrow> nat \<Rightarrow> string list" where
  "numbered ext c n = map (entry_name ext) [c ..< c + n]"

definition entry_number :: "string \<Rightarrow> string \<Rightarrow> nat" where
  "entry_number ext name = nat_of_string (take (length name - length ext) name)"

definition readable :: "blob \<Rightarrow> bool" where
  "readable b = (read_result b \<noteq> None)"

definition archives :: "DCTarEncoder \<Rightarrow> tar_file list" where
  "archives e = saved e @ (case tape e of None \<Rightarrow> [] | Some t \<Rightarrow> [t])"

text \<open>An encoder of one of the three archive classes, fresh from its constructor.\<close>

definition new_archive_encoder :: "string \<Rightarrow> settings \<Rightarrow> DCTarEncoder" where
  "new_archive_encoder ext st = (new_DCTarEncoder st)\<lparr>fileExtension := ext\<rparr>"

subsection \<open>DCWhammyEncoder\<close>

text \<open>
  \<^verbatim>\<open>this.encoder\<close> is the \<^verbatim>\<open>Whammy.Video\<close> object, the list of the frames added to it.
  The constructor throws when there is no \<^verbatim>\<open>Whammy\<close>. \<open>compiled\<close> records the videos
  handed to a \<^verbatim>\<open>save\<close> callback. The callback of \<^verbatim>\<open>save\<close> is \<open>True\<close> for a function
  and \<open>False\<close> when the caller passed nothing.
\<close>

record DCWhammyEncoder = encoder_base +
  quality :: rat
  encoder :: "canvas list option"
  frameCount :: nat
  compiled :: "canvas list list"

definition new_DCWhammyEncoder :: "platform \<Rightarrow> settings \<Rightarrow> exn + DCWhammyEncoder" where
  "new_DCWhammyEncoder pf st =
     (if \<not> has_Whammy pf then Inl (Error ''Whammy is not loaded'')
      else Inr \<lparr>settings = st, state = ''idle'', listeners = [], extension = ''.webm'',
                mimeType = ''video/webm'', emitted = [],
                quality = (if settings.quality st / 100 = 0 then 95 / 100
                           else settings.quality st / 100),
                encoder = None, frameCount = 0, compiled = []\<rparr>)"

definition DCWhammyEncoder_start :: "platform \<Rightarrow> DCWhammyEncoder \<Rightarrow> DCWhammyEncoder" where
  "DCWhammyEncoder_start pf e =
     (if has_Whammy pf then e\<lparr>encoder := Some [], frameCount := 0\<rparr>
      else emit_logged ''error'' (Message ''Error starting WebM encoder'') e)"

definition DCWhammyEncoder_add :: "canvas \<Rightarrow> DCWhammyEncoder \<Rightarrow> DCWhammyEncoder" where
  "DCWhammyEncoder_add cv e =
     (case encoder e of
        None \<Rightarrow> e
      | Some video \<Rightarrow> step (e\<lparr>encoder := Some (video @ [cv]), frameCount := frameCount e + 1\<rparr>))"

definition DCWhammyEncoder_stop :: "DCWhammyEncoder \<Rightarrow> DCWhammyEncoder" where
  "DCWhammyEncoder_stop e = e"

definition DCWhammyEncoder_save :: "bool \<Rightarrow> DCWhammyEncoder \<Rightarrow> DCWhammyEncoder" where
  "DCWhammyEncoder_save callback e =
     (case encoder e of
        None \<Rightarrow> emit_logged ''error'' (Message ''No encoder available'') e
      | Some video \<Rightarrow> if callback then e\<lparr>compiled := compiled e @ [video]\<rparr> else e)"

definition DCWhammyEncoder_dispose :: "DCWhammyEncoder \<Rightarrow> DCWhammyEncoder" where
  "DCWhammyEncoder_dispose e = e\<lparr>encoder := None, frameCount := 0\<rparr>"

subsection \<open>DCGIFEncoder\<close>

text \<open>
  \<^verbatim>\<open>this.encoder\<close> is the \<^verbatim>\<open>GIF\<close> object: its size options, the frames added, whether
  \<^verbatim>\<open>render()\<close> has been called, and how many \<^verbatim>\<open>save\<close> callbacks wait for its
  \<^verbatim>\<open>finished\<close> event. \<^verbatim>\<open>this.canvas\<close> is the size of the temporary canvas. The
  worker count and the drawing context, which only the library reads, are left out.
\<close>

record GIF =
  gif_width :: nat
  gif_height :: nat
  gif_frames :: "canvas list"
  rendering :: bool
  waiting :: nat

record DCGIFEncoder = encoder_base +
  quality :: rat
  workerPath :: string
  canvas :: "(nat \<times> nat) option"
  sizeSet :: bool
  encoder :: "GIF option"
  delay :: rat
  savedBlob :: "canvas list option"
  received :: "canvas list list"

definition new_DCGIFEncoder :: "settings \<Rightarrow> DCGIFEncoder" where
  "new_DCGIFEncoder st =
     \<lparr>settings = st, state = ''idle'', listeners = [], extension = ''.gif'',
      mimeType = ''image/gif'', emitted = [],
      quality = (if settings.quality st / 100 = 0 then 8 / 10 else settings.quality st / 100),
      workerPath = workersPath st @ ''gif.worker.js'', canvas = None, sizeSet = False,
      encoder = None, delay = 0, savedBlob = None, received = []\<rparr>"

definition DCGIFEncoder_start :: "platform \<Rightarrow> DCGIFEncoder \<Rightarrow> DCGIFEncoder" where
  "DCGIFEncoder_start pf e =
     (if \<not> has_GIF pf then emit_logged ''error'' (Message ''Error starting GIF encoder'') e
      else e\<lparr>delay := 1000 / (if framerate (settings e) = 0 then 60 else framerate (settings e)),
              encoder := Some \<lparr>gif_width = 150, gif_height = 150, gif_frames = [],
                               rendering = False, waiting = 0\<rparr>,
              canvas := Some (300, 150), sizeSet := False\<rparr>)"

definition DCGIFEncoder_add :: "canvas \<Rightarrow> DCGIFEncoder \<Rightarrow> DCGIFEncoder" where
  "DCGIFEncoder_add inputCanvas e =
     (case DCGIFEncoder.encoder e of
        None \<Rightarrow> e
      | Some g \<Rightarrow>
          (let resized = \<not> sizeSet e;
               sz = (if resized then Some (width inputCanvas, height inputCanvas) else canvas e);
               g1 = (if resized
                     then g\<lparr>gif_width := width inputCanvas, gif_height := height inputCanvas\<rparr>
                     else g);
               g2 = g1\<lparr>gif_frames := gif_frames g1 @ [inputCanvas]\<rparr>
           in step (e\<lparr>canvas := sz, sizeSet := True, encoder := Some g2\<rparr>)))"

definition DCGIFEncoder_stop :: "DCGIFEncoder \<Rightarrow> DCGIFEncoder" where
  "DCGIFEncoder_stop e =
     (case DCGIFEncoder.encoder e of
        None \<Rightarrow> e
      | Some g \<Rightarrow> e\<lparr>encoder := Some (g\<lparr>rendering := True\<rparr>)\<rparr>)"

definition DCGIFEncoder_save :: "bool \<Rightarrow> DCGIFEncoder \<Rightarrow> exn + DCGIFEncoder" where
  "DCGIFEncoder_save callback e =
     (case savedBlob e of
        Some b \<Rightarrow>
          if callback then Inr (e\<lparr>received := received e @ [b]\<rparr>)
          else Inl (TypeError ''callback is not a function'')
      | None \<Rightarrow>
          (case DCGIFEncoder.encoder e of
             None \<Rightarrow> Inl (TypeError ''Cannot read properties of null (reading on)'')
           | Some g \<Rightarrow> Inr (e\<lparr>encoder := Some (g\<lparr>waiting := waiting g + 1\<rparr>)\<rparr>)))"

definition DCGIFEncoder_dispose :: "DCGIFEncoder \<Rightarrow> DCGIFEncoder" where
  "DCGIFEncoder_dispose e =
     e\<lparr>encoder := None, canvas := None, savedBlob := None, sizeSet := False\<rparr>"

subsection \<open>DCMediaRecorderEncoder\<close>

text \<open>
  \<^verbatim>\<open>this.recorder\<close> is the state of the \<^verbatim>\<open>MediaRecorder\<close> object; \<^verbatim>\<open>this.chunks\<close> the
  sizes of the chunks kept; \<^verbatim>\<open>this.canvas\<close> the size of the recording canvas. The codec
  chosen in \<^verbatim>\<open>start\<close> is passed to the recorder and kept nowhere else.
\<close>

record DCMediaRecorderEncoder = encoder_base +
  quality :: rat
  framerate :: rat
  supported :: bool
  stream :: bool
  recorder :: "string option"
  chunks :: "nat list"
  canvas :: "(nat \<times> nat) option"
  firstFrame :: bool
  recordings :: "nat list list"

definition new_DCMediaRecorderEncoder :: "platform \<Rightarrow> settings \<Rightarrow> DCMediaRecorderEncoder" where
  "new_DCMediaRecorderEncoder pf st =
     \<lparr>settings = st, state = ''idle'', listeners = [], extension = ''.webm'',
      mimeType = ''video/webm'', emitted = [],
      quality = (if settings.quality st = 0 then 95 / 100 else settings.quality st),
      framerate = (if settings.framerate st = 0 then 60 else settings.framerate st),
      supported = has_MediaRecorder pf, stream = False, recorder = None, chunks = [],
      canvas = None, firstFrame = True, recordings = []\<rparr>"

definition DCMediaRecorderEncoder_start :: "DCMediaRecorderEncoder \<Rightarrow> DCMediaRecorderEncoder" where
  "DCMediaRecorderEncoder_start e =
     (if \<not> supported e then emit_logged ''error'' (Message ''MediaRecorder not supported'') e
      else emit_logged ''start'' NoData
             (e\<lparr>canvas := Some (300, 150), stream := True, recorder := Some ''recording'',
                chunks := []\<rparr>))"

definition ondataavailable :: "nat \<Rightarrow> DCMediaRecorderEncoder \<Rightarrow> DCMediaRecorderEncoder" where
  "ondataavailable n e = (if n > 0 then e\<lparr>chunks := chunks e @ [n]\<rparr> else e)"

definition DCMediaRecorderEncoder_add :: "canvas \<Rightarrow> DCMediaRecorderEncoder \<Rightarrow> DCMediaRecorderEncoder" where
  "DCMediaRecorderEncoder_add inputCanvas e =
     (if \<not> supported e \<or> recorder e = None then e
      else step (if firstFrame e
                 then e\<lparr>canvas := Some (width inputCanvas, height inputCanvas), firstFrame := False\<rparr>
                 else e))"

definition DCMediaRecorderEncoder_stop :: "DCMediaRecorderEncoder \<Rightarrow> DCMediaRecorderEncoder" where
  "DCMediaRecorderEncoder_stop e =
     (if \<not> supported e \<or> recorder e = None then e
      else emit_logged ''stop'' NoData (e\<lparr>recorder := Some ''inactive''\<rparr>))"

definition DCMediaRecorderEncoder_save :: "bool \<Rightarrow> DCMediaRecorderEncoder \<Rightarrow> DCMediaRecorderEncoder" where
  "DCMediaRecorderEncoder_save callback e =
     (if \<not> supported e \<or> recorder e = None
      then emit_logged ''error'' (Message ''No recording available'') e
      else if chunks e = [] then emit_logged ''error'' (Message ''No data recorded'') e
      else if callback then e\<lparr>recordings := recordings e @ [chunks e]\<rparr>
      else emit_logged ''error'' (Message ''Error saving recording'') e)"

definition DCMediaRecorderEncoder_dispose :: "DCMediaRecorderEncoder \<Rightarrow> DCMediaRecorderEncoder" where
  "DCMediaRecorderEncoder_dispose e =
     e\<lparr>recorder := None, stream := False, chunks := [], canvas := None, firstFrame := True\<rparr>"

subsection \<open>The encoder of a session\<close>

text \<open>
  \<^verbatim>\<open>this.encoder\<close> of a session is an object of one of the five classes
  \<^verbatim>\<open>createEncoder\<close> constructs; a method call on it runs the method of its class. The
  archive encoders inherit \<^verbatim>\<open>stop\<close> from the base class.
\<close>

datatype encoder =
    MediaRecorderEncoder DCMediaRecorderEncoder
  | PNGEncoder DCTarEncoder
  | JPEGEncoder DCTarEncoder
  | GIFEncoder DCGIFEncoder
  | WhammyEncoder DCWhammyEncoder

definition createEncoder :: "platform \<Rightarrow> settings \<Rightarrow> exn + encoder" where
  "createEncoder pf st =
     (if format st = ''webm-mediarecorder''
        then Inr (MediaRecorderEncoder (new_DCMediaRecorderEncoder pf st))
      else if format st = ''png'' then Inr (PNGEncoder (new_DCPNGEncoder st))
      else if format st = ''jpg'' \<or> format st = ''jpeg''
        then Inr (JPEGEncoder (new_DCJPEGEncoder st))
      else if format st = ''gif'' then Inr (GIFEncoder (new_DCGIFEncoder st))
      else (case new_DCWhammyEncoder pf st of
              Inl err \<Rightarrow> Inl err
            | Inr e \<Rightarrow> Inr (WhammyEncoder e)))"

text \<open>
  \<^verbatim>\<open>attachEncoderEvents\<close> attaches a listener for \<^verbatim>\<open>progress\<close> and one for \<^verbatim>\<open>error\<close>,
  which prints the message with \<^verbatim>\<open>console.error\<close>.
\<close>

definition attach :: "'a encoder_base_scheme \<Rightarrow> 'a encoder_base_scheme" where
  "attach e = e\<lparr>listeners := listeners e @ [''progress'', ''error'']\<rparr>"

definition attachEncoderEvents :: "encoder \<Rightarrow> encoder" where
  "attachEncoderEvents enc =
     (case enc of
        MediaRecorderEncoder e \<Rightarrow> MediaRecorderEncoder (attach e)
      | PNGEncoder e \<Rightarrow> PNGEncoder (attach e)
      | JPEGEncoder e \<Rightarrow> JPEGEncoder (attach e)
      | GIFEncoder e \<Rightarrow> GIFEncoder (attach e)
      | WhammyEncoder e \<Rightarrow> WhammyEncoder (attach e))"



definition encoder_start :: "platform \<Rightarrow> encoder \<Rightarrow> encoder" where
  "encoder_start pf enc =
     (case enc of
        MediaRecorderEncoder e \<Rightarrow> MediaRecorderEncoder (DCMediaRecorderEncoder_start e)
      | PNGEncoder e \<Rightarrow> PNGEncoder (DCTarEncoder_start pf e)
      | JPEGEncoder e \<Rightarrow> JPEGEncoder (DCTarEncoder_start pf e)
      | GIFEncoder e \<Rightarrow> GIFEncoder (DCGIFEncoder_start pf e)
      | WhammyEncoder e \<Rightarrow> WhammyEncoder (DCWhammyEncoder_start pf e))"

text \<open>
  \<^verbatim>\<open>add(canvas)\<close> returns normally in every class; beside the encoder is the exception,
  if any, that a callback of the call threw later.
\<close>

definition encoder_add :: "platform \<Rightarrow> canvas \<Rightarrow> encoder \<Rightarrow> encoder \<times> exn option" where
  "encoder_add pf cv enc =
     (case enc of
        MediaRecorderEncoder e \<Rightarrow> (MediaRecorderEncoder (DCMediaRecorderEncoder_add cv e), None)
      | PNGEncoder e \<Rightarrow> (case DCPNGEncoder_add pf cv e of (e', err) \<Rightarrow> (PNGEncoder e', err))
      | JPEGEncoder e \<Rightarrow> (case DCJPEGEncoder_add pf cv e of (e', err) \<Rightarrow> (JPEGEncoder e', err))
      | GIFEncoder e \<Rightarrow> (GIFEncoder (DCGIFEncoder_add cv e), None)
      | WhammyEncoder e \<Rightarrow> (WhammyEncoder (DCWhammyEncoder_add cv e), None))"

definition encoder_stop :: "encoder \<Rightarrow> encoder" where
  "encoder_stop enc =
     (case enc of
        MediaRecorderEncoder e \<Rightarrow> MediaRecorderEncoder (DCMediaRecorderEncoder_stop e)
      | PNGEncoder e \<Rightarrow> PNGEncoder (e\<lparr>state := ''finished''\<rparr>)
      | JPEGEncoder e \<Rightarrow> JPEGEncoder (e\<lparr>state := ''finished''\<rparr>)
      | GIFEncoder e \<Rightarrow> GIFEncoder (DCGIFEncoder_stop e)
      | WhammyEncoder e \<Rightarrow> WhammyEncoder (DCWhammyEncoder_stop e))"

text \<open>
  \<^verbatim>\<open>save(callback)\<close>: the callback is \<open>True\<close> for a function of the caller's, which
  returns normally and leaves the encoder alone, and \<open>False\<close> when nothing was passed.
\<close>

definition caller_callback :: "bool \<Rightarrow> (tar_file \<Rightarrow> DCTarEncoder \<Rightarrow> exn + DCTarEncoder) option" where
  "caller_callback callback = (if callback then Some (\<lambda>blob e. Inr e) else None)"

definition encoder_save :: "bool \<Rightarrow> encoder \<Rightarrow> exn + encoder" where
  "encoder_save callback enc =
     (case enc of
        MediaRecorderEncoder e \<Rightarrow> Inr (MediaRecorderEncoder (DCMediaRecorderEncoder_save callback e))
      | PNGEncoder e \<Rightarrow>
          (case DCTarEncoder_save (caller_callback callback) e of
             Inl err \<Rightarrow> Inl err | Inr e' \<Rightarrow> Inr (PNGEncoder e'))
      | JPEGEncoder e \<Rightarrow>
          (case DCTarEncoder_save (caller_callback callback) e of
             Inl err \<Rightarrow> Inl err | Inr e' \<Rightarrow> Inr (JPEGEncoder e'))
      | GIFEncoder e \<Rightarrow>
          (case DCGIFEncoder_save callback e of
             Inl err \<Rightarrow> Inl err | Inr e' \<Rightarrow> Inr (GIFEncoder e'))
      | WhammyEncoder e \<Rightarrow> Inr (WhammyEncoder (DCWhammyEncoder_save callback e)))"

definition encoder_dispose :: "platform \<Rightarrow> encoder \<Rightarrow> encoder" where
  "encoder_dispose pf enc =
     (case enc of
        MediaRecorderEncoder e \<Rightarrow> MediaRecorderEncoder (DCMediaRecorderEncoder_dispose e)
      | PNGEncoder e \<Rightarrow> PNGEncoder (DCTarEncoder_dispose pf e)
      | JPEGEncoder e \<Rightarrow> JPEGEncoder (DCTarEncoder_dispose pf e)
      | GIFEncoder e \<Rightarrow> GIFEncoder (DCGIFEncoder_dispose e)
      | WhammyEncoder e \<Rightarrow> WhammyEncoder (DCWhammyEncoder_dispose e))"

subsection \<open>DCapture\<close>

text \<open>
  The session. \<open>display\<close> says whether the status element exists. \<open>pending\<close> is the
  queue of promise jobs: \<^verbatim>\<open>stop()\<close> sets the flag at once and leaves the rest to a
  promise chain, which runs when the caller's code has returned; each entry says what was
  chained on the promise \<^verbatim>\<open>stop()\<close> returned. \<open>calls\<close> is the trace of the method calls
  made on the encoder. \<open>uncaught\<close> collects the exceptions no caller sees: those of
  later callbacks and of rejected promise chains. The fields the constructor sets and no
  method reads (\<^verbatim>\<open>date\<close>, \<^verbatim>\<open>deltaTime\<close>, \<^verbatim>\<open>totalFrames\<close>, \<^verbatim>\<open>frameCount\<close>,
  \<^verbatim>\<open>paused\<close>, \<^verbatim>\<open>closed\<close>, the two callbacks) and the text of the status element are
  left out, as is what \<^verbatim>\<open>log\<close> prints.
\<close>

datatype continuation = Nothing | ThenSave

datatype call = CallStart | CallAdd canvas | CallStop | CallSave | CallDispose

record DCapture =
  settings :: settings
  startTime :: int
  frames :: nat
  stopped :: bool
  encoder :: "encoder option"
  display :: bool
  pending :: "continuation list"
  calls :: "call list"
  uncaught :: "exn list"

text \<open>
  The constructor: the exception of \<^verbatim>\<open>createEncoder\<close> is the constructor's.
\<close>

definition new_DCapture :: "platform \<Rightarrow> settings \<Rightarrow> exn + DCapture" where
  "new_DCapture pf st =
     (case createEncoder pf st of
        Inl err \<Rightarrow> Inl err
      | Inr enc \<Rightarrow>
          Inr \<lparr>settings = st, startTime = 0, frames = 0, stopped = False,
               encoder = Some (attachEncoderEvents enc), display = settings.display st,
               pending = [], calls = [], uncaught = []\<rparr>)"

text \<open>
  \<^verbatim>\<open>start(callback)\<close> at clock reading \<open>now\<close> (milliseconds). The fields are assigned
  before \<^verbatim>\<open>this.encoder.start()\<close>, which is a TypeError on a disposed session. The
  caller's callback, when one is passed, runs last and is the caller's code.
\<close>

definition start :: "platform \<Rightarrow> int \<Rightarrow> DCapture \<Rightarrow> exn option \<times> DCapture" where
  "start pf now s =
     (let s1 = s\<lparr>startTime := now, frames := 0\<rparr>
      in case encoder s1 of
           None \<Rightarrow> (Some (TypeError ''Cannot read properties of null (reading start)''), s1)
         | Some enc \<Rightarrow>
             (None, s1\<lparr>encoder := Some (encoder_start pf enc), calls := calls s1 @ [CallStart]\<rparr>))"

text \<open>
  \<^verbatim>\<open>stop()\<close>: the flag, and a promise job. The argument is what the caller chains on the
  returned promise: \<^verbatim>\<open>capture\<close> chains \<^verbatim>\<open>() => this.save()\<close>.
\<close>

definition stop :: "continuation \<Rightarrow> DCapture \<Rightarrow> DCapture" where
  "stop k s = s\<lparr>stopped := True, pending := pending s @ [k]\<rparr>"

text \<open>\<^verbatim>\<open>save(callback)\<close>.\<close>

definition save :: "bool \<Rightarrow> DCapture \<Rightarrow> exn option \<times> DCapture" where
  "save callback s =
     (case encoder s of
        None \<Rightarrow> (Some (Error ''No encoder available''), s)
      | Some enc \<Rightarrow>
          (case encoder_save callback enc of
             Inl err \<Rightarrow> (Some err, s\<lparr>calls := calls s @ [CallSave]\<rparr>)
           | Inr enc' \<Rightarrow> (None, s\<lparr>encoder := Some enc', calls := calls s @ [CallSave]\<rparr>)))"

text \<open>
  The promise job of one \<^verbatim>\<open>stop()\<close>: \<^verbatim>\<open>this.encoder.stop\<close> is read (a TypeError on a
  disposed session, which rejects the chain), the encoder is stopped, and then what was
  chained runs; \<^verbatim>\<open>this.save()\<close> passes no callback.
\<close>

definition stop_job :: "continuation \<Rightarrow> DCapture \<Rightarrow> DCapture" where
  "stop_job k s =
     (case encoder s of
        None \<Rightarrow> s\<lparr>uncaught := uncaught s @ [TypeError ''Cannot read properties of null (reading stop)'']\<rparr>
      | Some enc \<Rightarrow>
          (let s1 = s\<lparr>encoder := Some (encoder_stop enc), calls := calls s @ [CallStop]\<rparr>
           in case k of
                Nothing \<Rightarrow> s1
              | ThenSave \<Rightarrow>
                  (case save False s1 of
                     (None, s2) \<Rightarrow> s2
                   | (Some err, s2) \<Rightarrow> s2\<lparr>uncaught := uncaught s2 @ [err]\<rparr>)))"

definition run_job :: "DCapture \<Rightarrow> DCapture" where
  "run_job s = (case pending s of [] \<Rightarrow> s | k # ks \<Rightarrow> stop_job k (s\<lparr>pending := ks\<rparr>))"

text \<open>\<^verbatim>\<open>this.encoder.add(canvas)\<close> on the encoder \<open>enc\<close> of the session.\<close>

definition forward :: "platform \<Rightarrow> canvas \<Rightarrow> encoder \<Rightarrow> DCapture \<Rightarrow> DCapture" where
  "forward pf cv enc s =
     (case encoder_add pf cv enc of
        (enc', err) \<Rightarrow>
          s\<lparr>encoder := Some enc', calls := calls s @ [CallAdd cv],
            uncaught := uncaught s @ (case err of None \<Rightarrow> [] | Some x \<Rightarrow> [x])\<rparr>)"

definition captureMotionBlur :: "platform \<Rightarrow> canvas \<Rightarrow> DCapture \<Rightarrow> exn option \<times> DCapture" where
  "captureMotionBlur pf cv s =
     (let s1 = s\<lparr>frames := frames s + 1\<rparr>
      in case encoder s1 of
           None \<Rightarrow> (Some (TypeError ''Cannot read properties of null (reading add)''), s1)
         | Some enc \<Rightarrow> (None, forward pf cv enc s1))"

text \<open>
  The time-limit test of \<^verbatim>\<open>capture\<close>, \<^verbatim>\<open>this.settings.timeLimit > 0\<close> and then
  \<^verbatim>\<open>(Date.now() - this.startTime) / 1000 >= this.settings.timeLimit\<close>, at \<open>elapsed\<close>
  milliseconds since the start, in the arithmetic of numbers.
\<close>

definition timeLimit_due :: "settings \<Rightarrow> int \<Rightarrow> bool" where
  "timeLimit_due st elapsed =
     (number_gt (double (timeLimit st)) (double 0) \<and>
      number_ge (number_divide (double (of_int elapsed)) (double 1000)) (double (timeLimit st)))"

text \<open>
  \<^verbatim>\<open>capture(canvas)\<close> at clock reading \<open>now\<close>; \<^verbatim>\<open>Date.now()\<close> is read for the time
  limit. What \<^verbatim>\<open>updateDisplayInfo\<close> writes into the status element is not kept.
\<close>

definition capture :: "platform \<Rightarrow> int \<Rightarrow> canvas \<Rightarrow> DCapture \<Rightarrow> exn option \<times> DCapture" where
  "capture pf now cv s =
     (if stopped s then (None, s)
      else case encoder s of
             None \<Rightarrow> (Some (Error ''No encoder available''), s)
           | Some enc \<Rightarrow>
               if motionBlurFrames (settings s) > 1 then captureMotionBlur pf cv s
               else
                 (let s1 = s\<lparr>frames := frames s + 1\<rparr>;
                      s2 = forward pf cv enc s1;
                      s3 = (if timeLimit_due (settings s2) (now - startTime s2)
                            then stop ThenSave s2 else s2);
                      s4 = (if frameLimit (settings s3) > 0 \<and>
                               int (frames s3) \<ge> frameLimit (settings s3)
                            then stop ThenSave s3 else s3)
                  in (None, s4)))"

text \<open>\<^verbatim>\<open>dispose()\<close>.\<close>

definition dispose :: "platform \<Rightarrow> DCapture \<Rightarrow> DCapture" where
  "dispose pf s =
     (let s1 = (case encoder s of
                  None \<Rightarrow> s
                | Some enc \<Rightarrow> s\<lparr>encoder := Some (encoder_dispose pf enc),
                                 calls := calls s @ [CallDispose]\<rparr>)
      in s1\<lparr>encoder := None, display := False\<rparr>)"

text \<open>
  A sequence of \<^verbatim>\<open>capture\<close> calls, each with the clock reading at the call; an exception
  ends it. \<open>added\<close> reads the frames passed to \<^verbatim>\<open>add\<close> off a trace, in order.
\<close>

fun captures :: "platform \<Rightarrow> (int \<times> canvas) list \<Rightarrow> DCapture \<Rightarrow> exn option \<times> DCapture" where
  "captures pf [] s = (None, s)"
| "captures pf (c # cs) s =
     (case capture pf (fst c) (snd c) s of
        (None, s') \<Rightarrow> captures pf cs s'
      | (Some err, s') \<Rightarrow> (Some err, s'))"

fun added :: "call list \<Rightarrow> canvas list" where
  "added [] = []"
| "added (CallAdd cv # cs) = cv # added cs"
| "added (_ # cs) = added cs"

text \<open>
  What can happen after a call of \<^verbatim>\<open>stop()\<close>, in any order: a \<^verbatim>\<open>capture\<close> call, or the
  next promise job running.
\<close>

datatype event = Capture int canvas | Job

fun after :: "platform \<Rightarrow> event list \<Rightarrow> DCapture \<Rightarrow> (exn option) list \<times> DCapture" where
  "after pf [] s = ([], s)"
| "after pf (Capture now cv # evs) s =
     (case capture pf now cv s of
        (r, s') \<Rightarrow> (case after pf evs s' of (rs, s'') \<Rightarrow> (r # rs, s'')))"
| "after pf (Job # evs) s = after pf evs (run_job s)"

subsection \<open>A whole recording\<close>

text \<open>
  Names for stating what a recording yields. The archive encoder of a session, when its
  encoder is of class \<^verbatim>\<open>DCPNGEncoder\<close> or \<^verbatim>\<open>DCJPEGEncoder\<close>; the artifacts of a session,
  which are the archives its encoder has handed to a \<^verbatim>\<open>save\<close> callback, in order; the
  archives that were passed to \<^verbatim>\<open>download\<close>, in order; the blob \<^verbatim>\<open>toBlob\<close> gives for a
  canvas; and a canvas whose frame reaches the archive: it gives a blob, and the reader
  loads the blob.
\<close>

definition archive_of :: "encoder \<Rightarrow> DCTarEncoder option" where
  "archive_of enc =
     (case enc of PNGEncoder e \<Rightarrow> Some e | JPEGEncoder e \<Rightarrow> Some e | _ \<Rightarrow> None)"

definition artifacts :: "DCapture \<Rightarrow> tar_file list" where
  "artifacts s =
     (case encoder s of
        None \<Rightarrow> []
      | Some enc \<Rightarrow> (case archive_of enc of None \<Rightarrow> [] | Some e \<Rightarrow> saved e))"

definition downloaded :: "DCapture \<Rightarrow> tar_file list" where
  "downloaded s =
     (case encoder s of
        None \<Rightarrow> []
      | Some enc \<Rightarrow> (case archive_of enc of None \<Rightarrow> [] | Some e \<Rightarrow> map fst (downloads e)))"

definition blob_of :: "canvas \<Rightarrow> blob" where
  "blob_of cv = (case toBlob cv of Gives b \<Rightarrow> b | _ \<Rightarrow> Blob None)"

definition convertible :: "canvas \<Rightarrow> bool" where
  "convertible cv = (case toBlob cv of Gives b \<Rightarrow> readable b | _ \<Rightarrow> False)"

text \<open>
  A recording: the session is constructed and started at clock reading \<open>t0\<close>, the frames
  are captured, \<^verbatim>\<open>stop()\<close> is called and its promise job runs, and \<^verbatim>\<open>save\<close> is called
  with a callback. The first exception thrown to the caller ends it.
\<close>

definition recording :: "platform \<Rightarrow> settings \<Rightarrow> int \<Rightarrow> (int \<times> canvas) list \<Rightarrow> exn + DCapture" where
  "recording pf st t0 cs =
     (case new_DCapture pf st of
        Inl err \<Rightarrow> Inl err
      | Inr s0 \<Rightarrow>
          (case start pf t0 s0 of
             (Some err, s1) \<Rightarrow> Inl err
           | (None, s1) \<Rightarrow>
               (case captures pf cs s1 of
                  (Some err, s2) \<Rightarrow> Inl err
                | (None, s2) \<Rightarrow>
                    (case save True (run_job (stop Nothing s2)) of
                       (Some err, s3) \<Rightarrow> Inl err
                     | (None, s3) \<Rightarrow> Inr s3))))"

text \<open>
  A session constructed, started at clock reading \<open>t0\<close> and fed \<^verbatim>\<open>capture\<close> calls; what
  is seen of a session from outside (the stopped flag, the queued jobs, the frame
  counter); and the number of artifacts of a recording.
\<close>

definition fed :: "platform \<Rightarrow> settings \<Rightarrow> int \<Rightarrow> (int \<times> canvas) list \<Rightarrow> exn + DCapture" where
  "fed pf st t0 cs =
     (case new_DCapture pf st of
        Inl err \<Rightarrow> Inl err
      | Inr s0 \<Rightarrow>
          (case start pf t0 s0 of
             (Some err, s1) \<Rightarrow> Inl err
           | (None, s1) \<Rightarrow>
               (case captures pf cs s1 of
                  (Some err, s2) \<Rightarrow> Inl err
                | (None, s2) \<Rightarrow> Inr s2)))"

definition outcome :: "exn + DCapture \<Rightarrow> (bool \<times> continuation list \<times> nat) option" where
  "outcome r = (case r of Inl err \<Rightarrow> None | Inr s \<Rightarrow> Some (stopped s, pending s, frames s))"

definition artifact_count :: "exn + DCapture \<Rightarrow> nat option" where
  "artifact_count r = (case r of Inl err \<Rightarrow> None | Inr s \<Rightarrow> Some (length (artifacts s)))"

section \<open>Properties\<close>

subsection \<open>Numbers\<close>

text \<open>
  What the claims need of the rounding: \<open>exponent x\<close> is the integer binary logarithm
  of a positive \<open>x\<close>; a rational \<^verbatim>\<open>m * 2^j\<close> with \<^verbatim>\<open>m < 2^53\<close>, \<^verbatim>\<open>j >= -1074\<close>, below the
  overflow threshold, is its own rounding, so every natural number below \<^verbatim>\<open>2^53\<close> is;
  what rounding returns is its own rounding; and a rational below a number \<open>a\<close> whose
  rounding reaches \<open>a\<close> lies at most half a spacing below \<open>a\<close>. From the last: when the
  quotient \<open>c / f\<close> rounds to at least \<open>a\<close>, then \<open>f * a < c + 1\<close>.
\<close>

lemma pow2_nat: "0 \<le> j \<Longrightarrow> (2::rat) powi j = 2 ^ nat j"
  by (simp add: power_int_def)

lemma pow2_pos [simp]: "(0::rat) < 2 powi j"
  by (simp add: zero_less_power_int)

lemma pow2_add: "(2::rat) powi (i + j) = 2 powi i * 2 powi j"
  by (simp add: power_int_add)

lemma pow2_diff: "(2::rat) powi (i - j) = 2 powi i / 2 powi j"
  by (simp add: power_int_diff)

lemma pow2_le_iff: "(2::rat) powi i \<le> 2 powi j \<longleftrightarrow> i \<le> j"
proof
  assume le: "(2::rat) powi i \<le> 2 powi j"
  show "i \<le> j"
  proof (rule ccontr)
    assume "\<not> i \<le> j"
    then have "j < i" by simp
    then have "(2::rat) powi j < 2 powi i" by (intro power_int_strict_increasing) simp_all
    with le show False by simp
  qed
next
  assume "i \<le> j"
  then show "(2::rat) powi i \<le> 2 powi j" by (intro power_int_increasing) simp_all
qed

lemma pow2_less_iff: "(2::rat) powi i < 2 powi j \<longleftrightarrow> i < j"
  using pow2_le_iff [of j i] by (simp add: not_le [symmetric])

lemma bitlen_rat_bounds:
  assumes "0 < p"
  shows "(2::rat) powi (bitlen p - 1) \<le> of_int p" and "(of_int p :: rat) < 2 powi bitlen p"
proof -
  have b: "1 \<le> bitlen p" using assms by (simp add: bitlen_alt_def)
  from bitlen_bounds [OF assms] have lo: "2 ^ nat (bitlen p - 1) \<le> p" and hi: "p < 2 ^ nat (bitlen p)"
    by simp_all
  have "(of_int (2 ^ nat (bitlen p - 1)) :: rat) \<le> of_int p" using lo by (simp only: of_int_le_iff)
  then show "(2::rat) powi (bitlen p - 1) \<le> of_int p" using b by (simp add: pow2_nat)
  have "(of_int p :: rat) < of_int (2 ^ nat (bitlen p))" using hi by (simp only: of_int_less_iff)
  then show "(of_int p :: rat) < 2 powi bitlen p" using b by (simp add: pow2_nat)
qed

lemma exponent_bounds:
  assumes "0 < x"
  shows "2 powi exponent x \<le> x" and "x < 2 powi (exponent x + 1)"
proof -
  obtain p d where pd: "quotient_of x = (p, d)" by (cases "quotient_of x")
  have d: "0 < d" using quotient_of_denom_pos [OF pd] .
  have x: "x = of_int p / of_int d" using quotient_of_div [OF pd] .
  have p: "0 < p" using assms d x by (simp add: zero_less_divide_iff)
  let ?k = "bitlen p - bitlen d"
  have dr: "(0::rat) < of_int d" using d by simp
  have "x < 2 powi bitlen p / of_int d"
    unfolding x using bitlen_rat_bounds(2) [OF p] dr by (simp add: divide_strict_right_mono)
  also have "\<dots> \<le> 2 powi bitlen p / 2 powi (bitlen d - 1)"
    using bitlen_rat_bounds(1) [OF d] dr by (intro divide_left_mono) simp_all
  also have "\<dots> = 2 powi (?k + 1)" by (simp add: pow2_diff [symmetric] algebra_simps)
  finally have hi: "x < 2 powi (?k + 1)" .
  have "(2::rat) powi (?k - 1) = 2 powi (bitlen p - 1) / 2 powi bitlen d"
    by (simp add: pow2_diff [symmetric] algebra_simps)
  also have "\<dots> \<le> of_int p / 2 powi bitlen d"
    using bitlen_rat_bounds(1) [OF p] by (intro divide_right_mono) simp_all
  also have "\<dots> \<le> of_int p / of_int d"
    using bitlen_rat_bounds(2) [OF d] p dr by (intro divide_left_mono) simp_all
  finally have lo: "2 powi (?k - 1) \<le> x" unfolding x .
  have e: "exponent x = (if 2 powi ?k \<le> x then ?k else ?k - 1)"
    by (simp add: exponent_def pd Let_def)
  show "2 powi exponent x \<le> x" using lo by (simp add: e)
  show "x < 2 powi (exponent x + 1)" using hi by (simp add: e not_le)
qed

lemma exponent_unique:
  assumes "2 powi k \<le> x" and "x < 2 powi (k + 1)"
  shows "exponent x = k"
proof -
  have x: "0 < x" using assms(1) pow2_pos [of k] by (rule less_le_trans [rotated])
  have "(2::rat) powi exponent x < 2 powi (k + 1)"
    using exponent_bounds(1) [OF x] assms(2) by (rule le_less_trans)
  then have a: "exponent x < k + 1" by (simp only: pow2_less_iff)
  have "(2::rat) powi k < 2 powi (exponent x + 1)"
    using assms(1) exponent_bounds(2) [OF x] by (rule le_less_trans)
  then have "k < exponent x + 1" by (simp only: pow2_less_iff)
  with a show ?thesis by simp
qed

lemma exponent_mono:
  assumes "0 < x" and "x \<le> y"
  shows "exponent x \<le> exponent y"
proof -
  have y: "0 < y" using assms by simp
  have "(2::rat) powi exponent x \<le> x" using exponent_bounds(1) [OF assms(1)] .
  also have "\<dots> \<le> y" by fact
  also have "\<dots> < 2 powi (exponent y + 1)" using exponent_bounds(2) [OF y] .
  finally have "exponent x < exponent y + 1" by (simp only: pow2_less_iff)
  then show ?thesis by simp
qed

lemma round_half_even_of_int [simp]: "round_half_even (of_int m) = m"
  by (simp add: round_half_even_def)

lemma round_half_even_cases:
  "round_half_even q = \<lfloor>q\<rfloor> \<and> q - of_int \<lfloor>q\<rfloor> \<le> 1 / 2 \<or>
   round_half_even q = \<lfloor>q\<rfloor> + 1 \<and> 1 / 2 \<le> q - of_int \<lfloor>q\<rfloor>"
  unfolding round_half_even_def Let_def by (cases "q - of_int \<lfloor>q\<rfloor>" "1 / 2 :: rat" rule: linorder_cases) simp_all

lemma round_half_even_bounds:
  "q - 1 / 2 \<le> of_int (round_half_even q)" "of_int (round_half_even q) \<le> q + 1 / 2"
proof -
  have f: "of_int \<lfloor>q\<rfloor> \<le> q" "q < of_int \<lfloor>q\<rfloor> + 1" by linarith+
  from round_half_even_cases [of q] show "q - 1 / 2 \<le> of_int (round_half_even q)"
  proof
    assume a: "round_half_even q = \<lfloor>q\<rfloor> \<and> q - of_int \<lfloor>q\<rfloor> \<le> 1 / 2"
    then have "of_int (round_half_even q) = (of_int \<lfloor>q\<rfloor> :: rat)" by simp
    with a show ?thesis by linarith
  next
    assume a: "round_half_even q = \<lfloor>q\<rfloor> + 1 \<and> 1 / 2 \<le> q - of_int \<lfloor>q\<rfloor>"
    then have "of_int (round_half_even q) = (of_int \<lfloor>q\<rfloor> :: rat) + 1" by simp
    with f show ?thesis by linarith
  qed
  from round_half_even_cases [of q] show "of_int (round_half_even q) \<le> q + 1 / 2"
  proof
    assume a: "round_half_even q = \<lfloor>q\<rfloor> \<and> q - of_int \<lfloor>q\<rfloor> \<le> 1 / 2"
    then have "of_int (round_half_even q) = (of_int \<lfloor>q\<rfloor> :: rat)" by simp
    with f show ?thesis by linarith
  next
    assume a: "round_half_even q = \<lfloor>q\<rfloor> + 1 \<and> 1 / 2 \<le> q - of_int \<lfloor>q\<rfloor>"
    then have "of_int (round_half_even q) = (of_int \<lfloor>q\<rfloor> :: rat) + 1" by simp
    with a show ?thesis by linarith
  qed
qed

lemma round_half_even_le:
  assumes "q \<le> of_int N"
  shows "round_half_even q \<le> N"
proof (cases "q = of_int N")
  case True
  then show ?thesis by simp
next
  case False
  then have "q < of_int N" using assms by simp
  then have "\<lfloor>q\<rfloor> < N" by (simp add: floor_less_iff)
  moreover have "round_half_even q \<le> \<lfloor>q\<rfloor> + 1" by (simp add: round_half_even_def Let_def)
  ultimately show ?thesis by simp
qed

lemma round_half_even_nonneg: "0 \<le> q \<Longrightarrow> 0 \<le> round_half_even q"
  by (simp add: round_half_even_def Let_def)

lemma round_magnitude_pos:
  assumes "0 < x"
  shows "round_magnitude x =
           (if overflow_threshold \<le> of_int (round_half_even (x / 2 powi (max (exponent x) (- 1022) - 52))) *
                                 2 powi (max (exponent x) (- 1022) - 52)
            then Infinite
            else Finite (of_int (round_half_even (x / 2 powi (max (exponent x) (- 1022) - 52))) *
                           2 powi (max (exponent x) (- 1022) - 52)))"
  using assms by (simp add: round_magnitude_def Let_def)

lemma overflow_threshold_pos [simp]: "0 < overflow_threshold"
  by (simp only: overflow_threshold_def pow2_pos)

lemma round_magnitude_zero [simp]: "round_magnitude 0 = Finite 0"
  by (simp add: round_magnitude_def)

lemma round_magnitude_representable:
  assumes x: "x = of_int m * 2 powi j" and m: "0 < m" "m < 2 ^ 53" and j: "- 1074 \<le> j"
    and top: "x < overflow_threshold"
  shows "round_magnitude x = Finite x"
proof -
  let ?e = "max (exponent x) (- 1022)"
  have pos: "0 < x" using m(1) by (simp add: x)
  have je: "?e - 52 \<le> j"
  proof (cases "exponent x \<le> - 1022")
    case True
    then show ?thesis using j by simp
  next
    case False
    have "(of_int m :: rat) < of_int (2 ^ 53)" using m(2) by (simp only: of_int_less_iff)
    then have "(of_int m :: rat) < 2 powi 53" by simp
    then have "x < 2 powi 53 * 2 powi j" unfolding x by (simp add: mult_strict_right_mono)
    then have "x < 2 powi (53 + j)" by (simp only: pow2_add)
    with exponent_bounds(1) [OF pos] have "(2::rat) powi exponent x < 2 powi (53 + j)"
      by (rule le_less_trans)
    then have "exponent x < 53 + j" by (simp only: pow2_less_iff)
    then show ?thesis using False by simp
  qed
  have "x / 2 powi (?e - 52) = of_int m * 2 powi (j - (?e - 52))"
    unfolding x by (simp only: pow2_diff times_divide_eq_right)
  also have "\<dots> = of_int m * 2 ^ nat (j - (?e - 52))" using je by (simp add: pow2_nat)
  also have "\<dots> = of_int (m * 2 ^ nat (j - (?e - 52)))" by simp
  finally have q: "x / 2 powi (?e - 52) = of_int (m * 2 ^ nat (j - (?e - 52)))" .
  have "of_int (round_half_even (x / 2 powi (?e - 52))) * 2 powi (?e - 52) =
          x / 2 powi (?e - 52) * 2 powi (?e - 52)"
    unfolding q by (simp only: round_half_even_of_int)
  also have "\<dots> = x" by simp
  finally have y: "of_int (round_half_even (x / 2 powi (?e - 52))) * 2 powi (?e - 52) = x" .
  show ?thesis
    unfolding round_magnitude_pos [OF pos] y using top by simp
qed

lemma round_magnitude_of_nat:
  assumes "k < 2 ^ 53"
  shows "round_magnitude (of_nat k) = Finite (of_nat k)"
proof (cases "k = 0")
  case True
  then show ?thesis by simp
next
  case False
  have lt: "int k < 2 ^ 53" using assms by (metis of_nat_less_iff of_nat_numeral of_nat_power)
  have "(of_int (int k) :: rat) < of_int (2 ^ 53)" using lt by (simp only: of_int_less_iff)
  then have "(of_nat k :: rat) < 2 ^ 53" by simp
  also have "\<dots> \<le> overflow_threshold"
    unfolding overflow_threshold_def using pow2_le_iff [of 53 1024] by (simp only: pow2_nat) simp
  finally have top: "(of_nat k :: rat) < overflow_threshold" .
  show ?thesis
    by (rule round_magnitude_representable [of _ "int k" 0]) (use False lt top in simp_all)
qed

lemma round_magnitude_finite:
  assumes "0 \<le> x" and "round_magnitude x = Finite y"
  shows "0 \<le> y" and "y < overflow_threshold"
proof -
  have "0 \<le> y \<and> y < overflow_threshold"
  proof (cases "x = 0")
    case True
    then show ?thesis using assms(2) by simp
  next
    case False
    then have pos: "0 < x" using assms(1) by simp
    let ?q = "2 powi (max (exponent x) (- 1022) - 52) :: rat"
    have y: "y = of_int (round_half_even (x / ?q)) * ?q" and lt: "y < overflow_threshold"
      using assms(2) unfolding round_magnitude_pos [OF pos] by (simp_all split: if_splits)
    have "0 \<le> x / ?q" using pos by simp
    then have "0 \<le> round_half_even (x / ?q)" by (rule round_half_even_nonneg)
    then have "0 \<le> y" unfolding y by simp
    with lt show ?thesis by simp
  qed
  then show "0 \<le> y" and "y < overflow_threshold" by simp_all
qed

lemma round_magnitude_idem:
  assumes "0 \<le> x" and "round_magnitude x = Finite y"
  shows "round_magnitude y = Finite y"
proof (cases "x = 0")
  case True
  then show ?thesis using assms(2) by simp
next
  case False
  then have pos: "0 < x" using assms(1) by simp
  let ?e = "max (exponent x) (- 1022)"
  let ?q = "2 powi (?e - 52) :: rat"
  let ?n = "round_half_even (x / ?q)"
  have y: "y = of_int ?n * ?q"
    using assms(2) unfolding round_magnitude_pos [OF pos] by (simp split: if_splits)
  have top: "y < overflow_threshold" using round_magnitude_finite(2) [OF assms] .
  have "x < 2 powi (exponent x + 1)" using exponent_bounds(2) [OF pos] .
  also have "\<dots> \<le> 2 powi (?e + 1)" by (simp only: pow2_le_iff)
  finally have "x / ?q < 2 powi (?e + 1) / ?q" by (simp add: divide_strict_right_mono)
  also have "2 powi (?e + 1) / ?q = 2 powi 53"
    by (simp only: pow2_diff [symmetric]) simp
  finally have "x / ?q \<le> of_int (2 ^ 53)" by simp
  then have ub: "?n \<le> 2 ^ 53" by (rule round_half_even_le)
  have "0 \<le> x / ?q" using pos by simp
  then have lb: "0 \<le> ?n" by (rule round_half_even_nonneg)
  have e: "- 1074 \<le> ?e - 52" by simp
  consider "?n = 0" | "0 < ?n" "?n < 2 ^ 53" | "?n = 2 ^ 53" using lb ub by linarith
  then show ?thesis
  proof cases
    case 1
    then show ?thesis by (simp add: y)
  next
    case 2
    show ?thesis by (rule round_magnitude_representable [OF y 2 e top])
  next
    case 3
    have "y = 2 ^ 53 * ?q" using 3 by (simp add: y)
    also have "\<dots> = 2 ^ 52 * (2 powi 1 * ?q)" by simp
    also have "2 powi 1 * ?q = 2 powi (?e - 51)" by (simp only: pow2_add [symmetric]) simp
    finally have y': "y = of_int (2 ^ 52) * 2 powi (?e - 51)" by simp
    show ?thesis by (rule round_magnitude_representable [OF y' _ _ _ top]) simp_all
  qed
qed

lemma round_magnitude_below:
  assumes x: "0 < x" "x < a" and a: "round_magnitude a = Finite a"
    and ge: "magnitude_le (Finite a) (round_magnitude x)"
  shows "a - 2 powi (max (exponent a) (- 1022) - 52) / 2 \<le> x"
proof -
  let ?ex = "max (exponent x) (- 1022)" and ?ea = "max (exponent a) (- 1022)"
  let ?qx = "2 powi (?ex - 52) :: rat" and ?qa = "2 powi (?ea - 52) :: rat"
  let ?n = "round_half_even (x / ?qx)"
  have apos: "0 < a" using x by simp
  have top: "a < overflow_threshold" using round_magnitude_finite(2) [OF _ a] apos by simp
  have le: "?ex \<le> ?ea" using exponent_mono [OF x(1), of a] x(2) by simp
  have qle: "?qx \<le> ?qa" using le by (simp only: pow2_le_iff)
  have big: "a \<le> of_int ?n * ?qx"
  proof (cases "overflow_threshold \<le> of_int ?n * ?qx")
    case True
    with top show ?thesis by simp
  next
    case False
    then show ?thesis using ge unfolding round_magnitude_pos [OF x(1)] by simp
  qed
  have am: "a = of_int (round_half_even (a / ?qa)) * ?qa"
    using a unfolding round_magnitude_pos [OF apos] by (simp split: if_splits)
  have "?qa = 2 powi (?ea - ?ex) * ?qx" by (simp only: pow2_add [symmetric]) simp
  also have "\<dots> = 2 ^ nat (?ea - ?ex) * ?qx" using le by (simp add: pow2_nat)
  finally have "a = of_int (round_half_even (a / ?qa) * 2 ^ nat (?ea - ?ex)) * ?qx"
    using am by simp
  then obtain M :: int where M: "a = of_int M * ?qx" by blast
  have "of_int M * ?qx \<le> of_int ?n * ?qx" using big M by simp
  then have "(of_int M :: rat) \<le> of_int ?n" by (simp only: mult_le_cancel_right_pos pow2_pos)
  also have "\<dots> \<le> x / ?qx + 1 / 2" by (rule round_half_even_bounds)
  finally have "of_int M * ?qx \<le> (x / ?qx + 1 / 2) * ?qx" by (simp only: mult_le_cancel_right_pos pow2_pos)
  then have "a \<le> x + ?qx / 2" unfolding M [symmetric] by (simp add: algebra_simps)
  with qle show ?thesis by linarith
qed

lemma double_zero: "double 0 = Signed False (Finite 0)"
  by (simp add: double_def)

lemma not_gt_zero: "x \<le> 0 \<Longrightarrow> \<not> number_gt (double x) (double 0)"
  by (auto simp: number_gt_def number_ge_def double_def)

lemma gt_zero_positive:
  assumes "number_gt (double x) (double 0)"
  shows "0 < x" and "double x = Signed False (round_magnitude x)"
    and "round_magnitude x \<noteq> Finite 0"
proof -
  show x: "0 < x" using assms not_gt_zero [of x] by (cases "x \<le> 0") simp_all
  then show "double x = Signed False (round_magnitude x)" by (simp add: double_def)
  show "round_magnitude x \<noteq> Finite 0"
    using assms x by (auto simp: number_gt_def number_ge_def double_def)
qed

lemma zero_over_anything:
  "number_divide (double 0) (double f) = NaN \<or>
   (\<exists>s. number_divide (double 0) (double f) = Signed s (Finite 0))"
  by (cases "round_magnitude \<bar>f\<bar>") (simp_all add: number_divide_def double_def)

lemma zero_not_ge_positive:
  assumes "number_gt (double a) (double 0)"
  shows "\<not> number_ge (number_divide (double 0) (double f)) (double a)"
proof -
  note a = gt_zero_positive [OF assms]
  from zero_over_anything [of f] show ?thesis
  proof
    assume "number_divide (double 0) (double f) = NaN"
    then show ?thesis by (simp add: number_ge_def)
  next
    assume "\<exists>s. number_divide (double 0) (double f) = Signed s (Finite 0)"
    then obtain s where "number_divide (double 0) (double f) = Signed s (Finite 0)" by blast
    moreover have "\<not> magnitude_le (round_magnitude a) (Finite 0)"
      using a(3) round_magnitude_finite(1) [of a] a(1)
      by (cases "round_magnitude a") auto
    ultimately show ?thesis using a(3) by (simp add: number_ge_def a(2))
  qed
qed

lemma double_of_nat: "k < 2 ^ 53 \<Longrightarrow> double (of_nat k) = Signed False (Finite (of_nat k))"
  by (simp add: double_def round_magnitude_of_nat)

lemma quotient_ge_finite:
  assumes "double f = Signed False (Finite f')" and "0 < f'"
    and "double a = Signed False (Finite a')" and "n < 2 ^ 53"
  shows "number_ge (number_divide (double (of_nat n)) (double f)) (double a) \<longleftrightarrow>
           magnitude_le (Finite a') (round_magnitude (of_nat n / f'))"
  using assms by (simp add: double_of_nat number_divide_def number_ge_def)

lemma double_finite_representable:
  assumes "double x = Signed False (Finite y)"
  shows "round_magnitude y = Finite y" and "0 \<le> y" and "y < overflow_threshold"
proof -
  from assms have "Signed (x < 0) (round_magnitude \<bar>x\<bar>) = Signed False (Finite y)"
    by (simp only: double_def)
  then have r: "round_magnitude \<bar>x\<bar> = Finite y" by (simp only: number.inject)
  show "round_magnitude y = Finite y" by (rule round_magnitude_idem [OF _ r]) simp
  show "0 \<le> y" by (rule round_magnitude_finite(1) [OF _ r]) simp
  show "y < overflow_threshold" by (rule round_magnitude_finite(2) [OF _ r]) simp
qed

lemma due_count_above_product:
  assumes f: "round_magnitude f = Finite f" "0 < f"
    and a: "round_magnitude a = Finite a" "0 < a"
    and c: "c + 1 < 2 ^ 53"
    and ge: "magnitude_le (Finite a) (round_magnitude (of_nat c / f))"
  shows "f * a < of_nat c + 1"
proof (rule ccontr)
  assume "\<not> f * a < of_nat c + 1"
  then have P: "of_nat c + 1 \<le> f * a" by simp
  have cpos: "0 < c"
  proof (rule ccontr)
    assume "\<not> 0 < c"
    then have "c = 0" by simp
    with ge a(2) show False by simp
  qed
  let ?x = "of_nat c / f :: rat"
  have x: "0 < ?x" using cpos f(2) by simp
  have "of_nat c < f * a" using P by simp
  then have xa: "?x < a" using f(2) by (simp add: pos_divide_less_eq mult.commute)
  let ?q = "2 powi (max (exponent a) (- 1022) - 52) :: rat"
  from round_magnitude_below [OF x xa a(1) ge] have "a - ?q / 2 \<le> ?x" .
  then have "(a - ?q / 2) * f \<le> of_nat c" using f(2) by (simp add: pos_le_divide_eq)
  then have low: "f * a - f * ?q / 2 \<le> of_nat c" by (simp add: algebra_simps)
  have c53: "(of_nat c :: rat) + 1 < 2 ^ 53"
  proof -
    have "int (c + 1) < 2 ^ 53" using c by (metis of_nat_less_iff of_nat_numeral of_nat_power)
    then have "(of_int (int (c + 1)) :: rat) < of_int (2 ^ 53)" by (simp only: of_int_less_iff)
    then show ?thesis by simp
  qed
  show False
  proof (cases "- 1022 \<le> exponent a")
    case True
    then have "?q = 2 powi exponent a / 2 powi 52" by (simp add: pow2_diff max_def)
    also have "\<dots> \<le> a / 2 powi 52"
      using exponent_bounds(1) [OF a(2)] by (intro divide_right_mono) simp_all
    finally have "?q \<le> a / 2 ^ 52" by simp
    then have "f * ?q \<le> f * (a / 2 ^ 52)" using f(2) by (simp only: mult_le_cancel_left_pos)
    then have "f * ?q / 2 \<le> f * a * (1 / 2 ^ 53)" by simp
    with low have fa: "f * a * (1 - 1 / 2 ^ 53) \<le> of_nat c" by (simp add: algebra_simps)
    have "(of_nat c + 1) * (1 - 1 / 2 ^ 53) \<le> f * a * (1 - 1 / 2 ^ 53 :: rat)"
      using P by (intro mult_right_mono) simp_all
    then have "(of_nat c + 1) * (1 - 1 / 2 ^ 53) \<le> (of_nat c :: rat)" using fa by (rule order_trans)
    then have "(2::rat) ^ 53 \<le> of_nat c + 1" by (simp add: algebra_simps)
    with c53 show False by simp
  next
    case False
    then have q: "?q = 2 powi (- 1074)" by (simp add: max_def)
    have "f < overflow_threshold" using round_magnitude_finite(2) [OF _ f(1)] f(2) by simp
    then have "f * 2 powi (- 1075) < 2 powi 1024 * 2 powi (- 1075)"
      unfolding overflow_threshold_def by (simp only: mult_less_cancel_right_pos pow2_pos)
    also have "\<dots> = 2 powi (- 51)" by (simp only: pow2_add [symmetric]) simp
    also have "\<dots> \<le> 2 powi 0" by (simp only: pow2_le_iff)
    finally have small: "f * 2 powi (- 1075) < 1" by simp
    have "?q / 2 = 2 powi (- 1074) / 2 powi 1" by (simp add: q)
    also have "\<dots> = 2 powi (- 1075)" by (simp only: pow2_diff [symmetric]) simp
    finally have "f * ?q / 2 = f * 2 powi (- 1075)" by simp
    with low small P show False by linarith
  qed
qed

lemma round_half_even_at:
  assumes "of_int n - 1 / 2 < q" and "q < of_int n + 1 / 2"
  shows "round_half_even q = n"
proof -
  have "q - 1 / 2 \<le> of_int (round_half_even q)" "of_int (round_half_even q) \<le> q + 1 / 2"
    by (rule round_half_even_bounds)+
  with assms have "of_int n - 1 < (of_int (round_half_even q) :: rat)"
    "(of_int (round_half_even q) :: rat) < of_int n + 1" by linarith+
  then have "n - 1 < round_half_even q" "round_half_even q < n + 1"
    by (simp_all only: of_int_less_iff [where ?'a = rat, symmetric] of_int_diff of_int_add of_int_1)
  then show ?thesis by simp
qed

lemma round_magnitude_at:
  assumes "2 powi k \<le> x" and "x < 2 powi (k + 1)" and "- 1022 \<le> k"
    and "of_int n - 1 / 2 < x / 2 powi (k - 52)" and "x / 2 powi (k - 52) < of_int n + 1 / 2"
    and "of_int n * 2 powi (k - 52) = y" and "y < 2 ^ 53"
  shows "round_magnitude x = Finite y"
proof -
  have x: "0 < x" using assms(1) pow2_pos [of k] by (rule less_le_trans [rotated])
  have e: "max (exponent x) (- 1022) = k"
    using exponent_unique [OF assms(1,2)] assms(3) by simp
  have n: "round_half_even (x / 2 powi (k - 52)) = n"
    using assms(4,5) by (rule round_half_even_at)
  have "y < 2 powi 53" using assms(7) by simp
  also have "(2::rat) powi 53 \<le> overflow_threshold"
    unfolding overflow_threshold_def by (simp only: pow2_le_iff)
  finally have "\<not> overflow_threshold \<le> y" by simp
  then show ?thesis
    unfolding round_magnitude_pos [OF x] e n assms(6) by simp
qed

subsection \<open>The listener table\<close>

lemma on_plain_name:
  assumes "ev \<notin> set Object_prototype_names"
  shows "on ev cb e =
           Inr (e\<lparr>eventListeners := (eventListeners e)(ev \<mapsto> own_listeners (eventListeners e) ev @ [cb])\<rparr>)"
  using assms by (cases "eventListeners e ev") (simp_all add: on_def get_slot_def own_listeners_def)

lemma emit_plain_name:
  assumes "ev \<notin> set Object_prototype_names"
  shows "emit ev d e w = forEach (\<lambda>cb. cb d) (own_listeners (eventListeners e) ev) w"
  using assms by (cases "eventListeners e ev") (simp_all add: emit_def get_slot_def own_listeners_def)

lemma register_plain_names:
  assumes "\<forall>r \<in> set regs. fst r \<notin> set Object_prototype_names"
  shows "\<exists>e'. register regs e = Inr e' \<and>
           (\<forall>ev. own_listeners (eventListeners e') ev =
                   own_listeners (eventListeners e) ev @ registered_for ev regs)"
  using assms
proof (induction regs arbitrary: e)
  case Nil
  then show ?case by (simp add: registered_for_def)
next
  case (Cons r rs)
  let ?e1 = "e\<lparr>eventListeners :=
                 (eventListeners e)(fst r \<mapsto> own_listeners (eventListeners e) (fst r) @ [snd r])\<rparr>"
  have step: "on (fst r) (snd r) e = Inr ?e1"
    using Cons.prems by (simp add: on_plain_name)
  have rest: "\<forall>r \<in> set rs. fst r \<notin> set Object_prototype_names"
    using Cons.prems by simp
  from Cons.IH [OF rest, of ?e1] obtain e' where
    run: "register rs ?e1 = Inr e'" and
    tbl: "\<forall>ev. own_listeners (eventListeners e') ev =
               own_listeners (eventListeners ?e1) ev @ registered_for ev rs"
    by blast
  have "own_listeners (eventListeners e') ev =
          own_listeners (eventListeners e) ev @ registered_for ev (r # rs)" for ev
    using tbl by (simp add: own_listeners_def registered_for_def)
  with step run show ?case by simp
qed

text \<open>
  What the table does for the names it was written for. On an encoder fresh from the
  constructor, after any sequence of \<^verbatim>\<open>on\<close> calls under event names that are not names of
  members of \<^verbatim>\<open>Object.prototype\<close>, every call succeeds, and \<^verbatim>\<open>emit(ev, d)\<close> under such a
  name runs \<^verbatim>\<open>forEach\<close> over exactly the callbacks registered under \<open>ev\<close>, in registration
  order, each called with \<open>d\<close> (a callback that throws ends the loop with its exception).
  With no callback registered under \<open>ev\<close> the world is returned unchanged and nothing is
  thrown.
\<close>

theorem emit_calls_registered_in_order:
  assumes "\<forall>r \<in> set regs. fst r \<notin> set Object_prototype_names"
    and "ev \<notin> set Object_prototype_names"
  shows "\<exists>e. register regs (new_DCFrameEncoder st) = Inr e \<and>
              emit ev d e w = forEach (\<lambda>cb. cb d) (registered_for ev regs) w \<and>
              (registered_for ev regs = [] \<longrightarrow> emit ev d e w = Inr w)"
proof -
  from register_plain_names [OF assms(1), of "new_DCFrameEncoder st"] obtain e where
    run: "register regs (new_DCFrameEncoder st) = Inr e" and
    tbl: "\<forall>ev. own_listeners (eventListeners e) ev =
               own_listeners (eventListeners (new_DCFrameEncoder st)) ev @ registered_for ev regs"
    by blast
  have "own_listeners (eventListeners e) ev = registered_for ev regs"
    using tbl by (simp add: new_DCFrameEncoder_def own_listeners_def)
  then have "emit ev d e w = forEach (\<lambda>cb. cb d) (registered_for ev regs) w"
    using assms(2) by (simp add: emit_plain_name)
  with run show ?thesis by auto
qed

text \<open>
  Three callbacks that each append their number and the data to a log, two of them under
  \<^verbatim>\<open>progress\<close>: emitting \<^verbatim>\<open>progress\<close> with 7 logs the first and the third, in that order.
\<close>

theorem emit_calls_registered_in_order_witness:
  "\<exists>e. register [(''progress'', \<lambda>d w. Inr (w @ [(1::nat, d)])),
                  (''error'', \<lambda>d w. Inr (w @ [(2, d)])),
                  (''progress'', \<lambda>d w. Inr (w @ [(3, d)]))] (new_DCFrameEncoder ()) = Inr e \<and>
       emit ''progress'' (7::nat) e [] = Inr [(1, 7), (3, 7)]"
  using emit_calls_registered_in_order [of
      "[(''progress'', \<lambda>d w. Inr (w @ [(1::nat, d)])),
        (''error'', \<lambda>d w. Inr (w @ [(2, d)])),
        (''progress'', \<lambda>d w. Inr (w @ [(3, d)]))]" "''progress''" "()" "7::nat" "[]"]
  by (simp add: Object_prototype_names_def registered_for_def)

text \<open>
  Claim C8 (for every event kind, any number of handlers may be registered, and emitting
  an event kind with no registered handler does nothing and does not throw) is what the
  guards \<^verbatim>\<open>if (!this.eventListeners[event])\<close> of \<^verbatim>\<open>on\<close> and
  \<^verbatim>\<open>if (this.eventListeners[event])\<close> of \<^verbatim>\<open>emit\<close> are there for, and the code does not do
  it: the guards test truthiness of a lookup in a plain object, which also finds the
  members inherited from \<^verbatim>\<open>Object.prototype\<close>. On a fresh encoder with no listener at all,
  \<^verbatim>\<open>emit('toString', 7)\<close> throws a \<^verbatim>\<open>TypeError\<close> (the inherited function has no
  \<^verbatim>\<open>forEach\<close>), and \<^verbatim>\<open>on('constructor', cb)\<close> throws one too (it has no \<^verbatim>\<open>push\<close>), so
  the handler is not registered.
\<close>

theorem emit_inherited_name_throws:
  "emit ''toString'' (7::nat) (new_DCFrameEncoder ()) ([]::nat list) =
     Inl (TypeError ''this.eventListeners[event].forEach is not a function'') \<and>
   on ''constructor'' (\<lambda>d w. Inr w) (new_DCFrameEncoder () :: (unit, nat, nat list) DCFrameEncoder) =
     Inl (TypeError ''this.eventListeners[event].push is not a function'')"
  by (simp add: emit_def on_def get_slot_def new_DCFrameEncoder_def Object_prototype_names_def)

subsection \<open>Entry names\<close>

lemma digit_val_digit_char: "d < 10 \<Longrightarrow> digit_val (digit_char d) = d"
proof -
  assume "d < 10"
  then have "d \<in> {0, 1, 2, 3, 4, 5, 6, 7, 8, 9}" by auto
  then show ?thesis
    by (auto simp: digit_val_def digit_char_def)
qed

lemma nat_of_string_snoc: "nat_of_string (s @ [c]) = 10 * nat_of_string s + digit_val c"
  by (simp add: nat_of_string_def)

lemma nat_of_string_of_nat: "nat_of_string (string_of_nat n) = n"
proof (induction n rule: string_of_nat.induct)
  case (1 n)
  show ?case
  proof (cases "n < 10")
    case True
    then show ?thesis
      by (subst string_of_nat.simps) (simp add: nat_of_string_def digit_val_digit_char)
  next
    case False
    then have "nat_of_string (string_of_nat (n div 10)) = n div 10" using 1 by simp
    with False show ?thesis
      by (subst string_of_nat.simps) (simp add: nat_of_string_snoc digit_val_digit_char)
  qed
qed

lemma foldl_zeros: "foldl (\<lambda>acc c. 10 * acc + digit_val c) 0 (replicate k CHR ''0'') = 0"
  by (induction k) (simp_all add: digit_val_def)

lemma nat_of_string_zeros: "nat_of_string (replicate k CHR ''0'' @ s) = nat_of_string s"
  by (simp add: nat_of_string_def foldl_zeros)

lemma nat_of_string_pad: "nat_of_string (pad n) = n"
  by (simp add: pad_def pad_width_def Let_def nat_of_string_zeros nat_of_string_of_nat)

lemma length_string_of_nat_le: "n < 10 ^ Suc k \<Longrightarrow> length (string_of_nat n) \<le> Suc k"
proof (induction k arbitrary: n)
  case 0
  then show ?case by (subst string_of_nat.simps) simp
next
  case (Suc k)
  show ?case
  proof (cases "n < 10")
    case True
    then show ?thesis by (subst string_of_nat.simps) simp
  next
    case False
    have "n div 10 < 10 ^ Suc k" using Suc.prems by (simp add: less_mult_imp_div_less mult.commute)
    then have "length (string_of_nat (n div 10)) \<le> Suc k" by (rule Suc.IH)
    with False show ?thesis by (subst string_of_nat.simps) simp
  qed
qed

lemma length_pad_ge: "6 \<le> length (pad n)"
  by (simp add: pad_def pad_width_def Let_def)

lemma length_pad_small: "n < 1000000 \<Longrightarrow> length (pad n) = 6"
proof -
  assume "n < 1000000"
  then have "n < 10 ^ Suc 5" by simp
  then have "length (string_of_nat n) \<le> 6" using length_string_of_nat_le [of n 5] by simp
  then show ?thesis by (auto simp: pad_def pad_width_def Let_def)
qed

lemma pad_zero: "pad 0 = ''000000''"
  by code_simp

lemma pad_eq_zero_iff: "pad n = ''000000'' \<longleftrightarrow> n = 0"
proof
  assume "pad n = ''000000''"
  then have "nat_of_string (pad n) = nat_of_string ''000000''" by simp
  then show "n = 0" by (simp add: nat_of_string_pad) (simp add: nat_of_string_def digit_val_def)
next
  assume "n = 0" then show "pad n = ''000000''" by (simp add: pad_zero)
qed

subsection \<open>The archive encoder, call by call\<close>

lemma autoSave_never_due_at_zero: "\<not> autoSave_due st 0"
  using zero_not_ge_positive [of "autoSaveTime st" "settings.framerate st"]
  by (auto simp: autoSave_due_def)

lemma autoSave_due_finite:
  assumes "double (settings.framerate st) = Signed False (Finite f)" and "0 < f"
    and "double (autoSaveTime st) = Signed False (Finite a)" and "0 < a" and "n < 2 ^ 53"
  shows "autoSave_due st n \<longleftrightarrow> magnitude_le (Finite a) (round_magnitude (of_nat n / f))"
proof -
  have "number_gt (double (autoSaveTime st)) (double 0)"
    using assms(3,4) by (simp add: number_gt_def number_ge_def double_zero)
  then show ?thesis
    using quotient_ge_finite [OF assms(1,2,3,5)] by (simp add: autoSave_due_def)
qed

lemma double_one: "double 1 = Signed False (Finite 1)"
  using double_of_nat [of 1] by simp

lemma due_at_one:
  assumes "settings.framerate st = 1" and "autoSaveTime st = 1"
  shows "autoSave_due st (Suc 0)"
  using autoSave_due_finite [of st 1 1 "Suc 0"] round_magnitude_of_nat [of 1]
  by (simp add: assms double_one)

lemma onload_append:
  assumes "tape e = Some t" and "\<not> autoSave_due (encoder_base.settings e) (DCTarEncoder.frames e)"
  shows "onload pf r e =
           Inr (step (e\<lparr>tape := Some (t @ [(entry_name (fileExtension e) (count e), r)]),
                          count := count e + 1,
                          DCTarEncoder.frames := DCTarEncoder.frames e + 1\<rparr>))"
  using assms by (simp add: onload_def entry_name_def Let_def)

lemma onload_rotate:
  assumes "has_Tar pf" and "tape e = Some t"
    and "autoSave_due (encoder_base.settings e) (DCTarEncoder.frames e)"
  shows "\<exists>e'. onload pf r e = Inr e' \<and>
           tape e' = Some [] \<and> count e' = count e + 1 \<and> DCTarEncoder.frames e' = 0 \<and>
           part e' = part e + 1 \<and>
           saved e' = saved e @ [t @ [(entry_name (fileExtension e) (count e), r)]] \<and>
           fileExtension e' = fileExtension e \<and>
           encoder_base.settings e' = encoder_base.settings e"
  using assms
  by (simp add: onload_def entry_name_def Let_def DCTarEncoder_save_def autoSave_callback_def
      DCTarEncoder_dispose_def step_def emit_logged_def)

lemma div_split: "0 < m \<Longrightarrow> x div m + (x mod m + n) div m = (x + n) div (m::nat)"
proof -
  assume m: "0 < m"
  have "x + n = x div m * m + (x mod m + n)" by simp
  then have "(x + n) div m = (x div m * m + (x mod m + n)) div m" by simp
  also have "\<dots> = x div m + (x mod m + n) div m" using m by (simp only: div_mult_self3)
  finally show ?thesis by simp
qed

lemma numbered_snoc: "numbered ext c n @ [entry_name ext (c + n)] = numbered ext c (Suc n)"
  by (simp add: numbered_def)

lemma add_names:
  assumes "has_Tar pf" and "tape e = Some t"
    and "map fst (concat (saved e) @ t) = numbered (fileExtension e) 0 (count e)"
  shows "\<exists>e' t'. DCTarEncoder_add pf b e = Inr e' \<and> tape e' = Some t' \<and>
           fileExtension e' = fileExtension e \<and>
           encoder_base.settings e' = encoder_base.settings e \<and>
           map fst (concat (saved e') @ t') = numbered (fileExtension e) 0 (count e') \<and>
           count e' = count e + (if readable b then 1 else 0)"
proof (cases "read_result b")
  case None
  then show ?thesis
    using assms by (simp add: DCTarEncoder_add_def onerror_def emit_logged_def readable_def)
next
  case (Some r)
  have names: "map fst (concat (saved e) @ t) @ [entry_name (fileExtension e) (count e)] =
                 numbered (fileExtension e) 0 (Suc (count e))"
    using assms(3) numbered_snoc [of "fileExtension e" 0 "count e"] by simp
  show ?thesis
  proof (cases "autoSave_due (encoder_base.settings e) (DCTarEncoder.frames e)")
    case False
    show ?thesis
      using Some names onload_append [OF assms(2) False, of pf r]
      by (simp add: DCTarEncoder_add_def readable_def step_def emit_logged_def)
  next
    case True
    from onload_rotate [OF assms(1,2) True, of r] obtain e' where
      "onload pf r e = Inr e'" "tape e' = Some []" "count e' = count e + 1"
      "saved e' = saved e @ [t @ [(entry_name (fileExtension e) (count e), r)]]"
      "fileExtension e' = fileExtension e" "encoder_base.settings e' = encoder_base.settings e"
      by blast
    then show ?thesis
      using Some names by (simp add: DCTarEncoder_add_def readable_def)
  qed
qed

lemma adds_names:
  assumes "has_Tar pf" and "tape e = Some t"
    and "map fst (concat (saved e) @ t) = numbered (fileExtension e) 0 (count e)"
  shows "\<exists>e' t'. adds pf bs e = Inr e' \<and> tape e' = Some t' \<and>
           fileExtension e' = fileExtension e \<and>
           encoder_base.settings e' = encoder_base.settings e \<and>
           map fst (concat (saved e') @ t') = numbered (fileExtension e) 0 (count e') \<and>
           count e' = count e + length (filter readable bs)"
  using assms(2,3)
proof (induction bs arbitrary: e t)
  case Nil
  then show ?case by simp
next
  case (Cons b bs)
  from add_names [OF assms(1) Cons.prems, of b] obtain e1 t1 where
    one: "DCTarEncoder_add pf b e = Inr e1" "tape e1 = Some t1"
      "fileExtension e1 = fileExtension e" "encoder_base.settings e1 = encoder_base.settings e"
      "map fst (concat (saved e1) @ t1) = numbered (fileExtension e) 0 (count e1)"
      "count e1 = count e + (if readable b then 1 else 0)"
    by blast
  from Cons.IH [of e1 t1] one obtain e' t' where
    "adds pf bs e1 = Inr e'" "tape e' = Some t'" "fileExtension e' = fileExtension e1"
    "encoder_base.settings e' = encoder_base.settings e1"
    "map fst (concat (saved e') @ t') = numbered (fileExtension e1) 0 (count e')"
    "count e' = count e1 + length (filter readable bs)"
    by auto
  with one show ?case by auto
qed

lemma entry_number_entry_name: "entry_number ext (entry_name ext k) = k"
  by (simp add: entry_number_def entry_name_def nat_of_string_pad)

lemma entry_name_inject: "entry_name ext a = entry_name ext b \<Longrightarrow> a = b"
  by (metis entry_number_entry_name)

lemma entry_numbers_names: "map (entry_number ext) (map (entry_name ext) ks) = ks"
  by (induction ks) (simp_all add: entry_number_entry_name)

lemma entry_numbers_numbered: "map (entry_number ext) (numbered ext c n) = [c ..< c + n]"
  unfolding numbered_def by (rule entry_numbers_names)

lemma length_numbered [simp]: "length (numbered ext c n) = n"
  by (simp add: numbered_def)

lemma numbered_slice: "c + n \<le> m \<Longrightarrow> take n (drop c (numbered ext 0 m)) = numbered ext c n"
proof -
  assume le: "c + n \<le> m"
  have "drop c [0 ..< m] = [c ..< m]" by simp
  moreover have "take n [c ..< m] = [c ..< c + n]" using le by (simp add: take_upt)
  ultimately show ?thesis
    unfolding numbered_def by (simp only: drop_map take_map add_0)
qed

lemma nth_concat_slice:
  "i < length ps \<Longrightarrow> ps ! i = take (length (ps ! i)) (drop (length (concat (take i ps))) (concat ps))"
proof (induction ps arbitrary: i)
  case Nil
  then show ?case by simp
next
  case (Cons p ps)
  then show ?case by (cases i) simp_all
qed

lemma concat_slice_bound:
  "i < length ps \<Longrightarrow> length (concat (take i ps)) + length (ps ! i) \<le> length (concat ps)"
proof (induction ps arbitrary: i)
  case Nil
  then show ?case by simp
next
  case (Cons p ps)
  then show ?case by (cases i) simp_all
qed

lemma part_names:
  assumes "map fst (concat ps) = numbered ext 0 m" and "i < length ps"
  shows "map fst (ps ! i) = numbered ext (length (concat (take i ps))) (length (ps ! i))"
proof -
  let ?c = "length (concat (take i ps))" and ?n = "length (ps ! i)"
  have m: "m = length (concat ps)"
    using arg_cong [OF assms(1), of length] by simp
  have "map fst (ps ! i) = take ?n (drop ?c (map fst (concat ps)))"
    using nth_concat_slice [OF assms(2)] by (metis drop_map take_map)
  also have "\<dots> = take ?n (drop ?c (numbered ext 0 m))" by (simp add: assms(1))
  also have "\<dots> = numbered ext ?c ?n"
    using concat_slice_bound [OF assms(2)] m by (intro numbered_slice) simp
  finally show ?thesis .
qed

lemma add_parts_tape:
  assumes "has_Tar pf" and "tape e = Some t" and "DCTarEncoder_add pf b e = Inr e'"
  shows "\<exists>t'. tape e' = Some t'"
proof (cases "read_result b")
  case None
  then show ?thesis
    using assms by (auto simp: DCTarEncoder_add_def onerror_def emit_logged_def)
next
  case (Some r)
  show ?thesis
  proof (cases "autoSave_due (encoder_base.settings e) (DCTarEncoder.frames e)")
    case False
    then show ?thesis
      using Some assms onload_append [OF assms(2) False, of pf r]
      by (auto simp: DCTarEncoder_add_def step_def emit_logged_def)
  next
    case True
    from onload_rotate [OF assms(1,2) True, of r] obtain e1 where
      "onload pf r e = Inr e1" "tape e1 = Some []"
      by blast
    then show ?thesis
      using Some assms by (auto simp: DCTarEncoder_add_def)
  qed
qed

lemma add_saved_nonempty:
  assumes "has_Tar pf" and "tape e = Some t" and "\<forall>p \<in> set (saved e). p \<noteq> []"
    and "DCTarEncoder_add pf b e = Inr e'"
  shows "\<forall>p \<in> set (saved e'). p \<noteq> []"
proof (cases "read_result b")
  case None
  then show ?thesis
    using assms by (auto simp: DCTarEncoder_add_def onerror_def emit_logged_def)
next
  case (Some r)
  show ?thesis
  proof (cases "autoSave_due (encoder_base.settings e) (DCTarEncoder.frames e)")
    case False
    then show ?thesis
      using Some assms onload_append [OF assms(2) False, of pf r]
      by (auto simp: DCTarEncoder_add_def step_def emit_logged_def)
  next
    case True
    from onload_rotate [OF assms(1,2) True, of r] obtain e1 where
      "onload pf r e = Inr e1"
      "saved e1 = saved e @ [t @ [(entry_name (fileExtension e) (count e), r)]]"
      by blast
    then show ?thesis
      using Some assms by (auto simp: DCTarEncoder_add_def)
  qed
qed

lemma adds_saved_nonempty:
  assumes "has_Tar pf" and "tape e = Some t" and "\<forall>p \<in> set (saved e). p \<noteq> []"
    and "adds pf bs e = Inr e'"
  shows "\<forall>p \<in> set (saved e'). p \<noteq> []"
  using assms(2-)
proof (induction bs arbitrary: e t)
  case Nil
  then show ?case by simp
next
  case (Cons b bs)
  from Cons.prems(3) obtain e1 where
    one: "DCTarEncoder_add pf b e = Inr e1" and rest: "adds pf bs e1 = Inr e'"
    by (auto split: sum.splits)
  have ne: "\<forall>p \<in> set (saved e1). p \<noteq> []"
    using add_saved_nonempty [OF assms(1) Cons.prems(1,2) one] .
  obtain t1 where t1: "tape e1 = Some t1"
    using add_parts_tape one Cons.prems(1) assms(1) by blast
  show ?case using Cons.IH [OF t1 ne rest] .
qed

subsection \<open>The session\<close>

lemma forward_fields [simp]:
  "frames (forward pf cv enc s) = frames s"
  "stopped (forward pf cv enc s) = stopped s"
  "DCapture.settings (forward pf cv enc s) = DCapture.settings s"
  "startTime (forward pf cv enc s) = startTime s"
  "pending (forward pf cv enc s) = pending s"
  "calls (forward pf cv enc s) = calls s @ [CallAdd cv]"
  "DCapture.encoder (forward pf cv enc s) = Some (fst (encoder_add pf cv enc))"
  by (simp_all add: forward_def split: prod.splits)

lemma timeLimit_not_due: "timeLimit st \<le> 0 \<Longrightarrow> \<not> timeLimit_due st elapsed"
  by (simp add: timeLimit_due_def not_gt_zero)

lemma capture_unlimited:
  assumes "\<not> stopped s" and "DCapture.encoder s = Some enc"
    and "frameLimit (DCapture.settings s) \<le> 0" and "timeLimit (DCapture.settings s) \<le> 0"
  shows "capture pf now cv s = (None, forward pf cv enc (s\<lparr>frames := frames s + 1\<rparr>))"
  using assms by (simp add: capture_def captureMotionBlur_def Let_def timeLimit_not_due)

lemma captures_unlimited:
  assumes "\<not> stopped s" and "DCapture.encoder s = Some enc"
    and "frameLimit (DCapture.settings s) \<le> 0" and "timeLimit (DCapture.settings s) \<le> 0"
  shows "\<exists>s' enc'. captures pf cs s = (None, s') \<and> \<not> stopped s' \<and>
           DCapture.encoder s' = Some enc' \<and> DCapture.settings s' = DCapture.settings s \<and>
           pending s' = pending s \<and>
           frames s' = frames s + length cs \<and> calls s' = calls s @ map (CallAdd \<circ> snd) cs"
  using assms
proof (induction cs arbitrary: s enc)
  case Nil
  then show ?case by simp
next
  case (Cons c cs)
  let ?s1 = "forward pf (snd c) enc (s\<lparr>frames := frames s + 1\<rparr>)"
  have one: "capture pf (fst c) (snd c) s = (None, ?s1)"
    using Cons.prems by (rule capture_unlimited)
  have "\<exists>s' enc'. captures pf cs ?s1 = (None, s') \<and> \<not> stopped s' \<and>
           DCapture.encoder s' = Some enc' \<and> DCapture.settings s' = DCapture.settings ?s1 \<and>
           pending s' = pending ?s1 \<and>
           frames s' = frames ?s1 + length cs \<and> calls s' = calls ?s1 @ map (CallAdd \<circ> snd) cs"
    using Cons.prems by (intro Cons.IH) simp_all
  then show ?case using one by auto
qed

lemma added_append: "added (xs @ ys) = added xs @ added ys"
  by (induction xs rule: added.induct) simp_all

lemma added_adds: "added (map (CallAdd \<circ> f) cs) = map f cs"
  by (induction cs) simp_all

lemma new_DCapture_fields:
  assumes "new_DCapture pf st = Inr s0"
  shows "\<not> stopped s0" and "DCapture.settings s0 = st" and "\<exists>enc. DCapture.encoder s0 = Some enc"
    and "calls s0 = []" and "pending s0 = []"
  using assms by (auto simp: new_DCapture_def split: sum.splits)

lemma start_with_encoder:
  assumes "DCapture.encoder s = Some enc"
  shows "start pf t0 s =
           (None, s\<lparr>startTime := t0, frames := 0, encoder := Some (encoder_start pf enc),
                     calls := calls s @ [CallStart]\<rparr>)"
  using assms by (simp add: start_def Let_def)

lemma started_fields:
  assumes "new_DCapture pf st = Inr s0"
  shows "\<exists>s1 enc. start pf t0 s0 = (None, s1) \<and> \<not> stopped s1 \<and> DCapture.settings s1 = st \<and>
           DCapture.encoder s1 = Some enc \<and> calls s1 = [CallStart] \<and> pending s1 = [] \<and>
           frames s1 = 0"
proof -
  from new_DCapture_fields [OF assms] obtain enc where
    f: "\<not> stopped s0" "DCapture.settings s0 = st" "DCapture.encoder s0 = Some enc"
      "calls s0 = []" "pending s0 = []"
    by blast
  show ?thesis using f by (simp add: start_with_encoder [OF f(3)])
qed

text \<open>
  Claim C1. A session is constructed with no time limit and no frame limit (each at most
  zero; the defaults are zero) and started. Then any sequence of \<^verbatim>\<open>capture\<close> calls
  returns normally, the frame counter afterwards is the number of calls, and the frames
  handed to the \<^verbatim>\<open>add\<close> method of the encoder are exactly the captured frames, in the
  order of the calls. This holds for every format, with or without motion blur.
\<close>

theorem capture_counts_frames:
  assumes "new_DCapture pf st = Inr s0" and "timeLimit st \<le> 0" and "frameLimit st \<le> 0"
  shows "\<exists>s1 s. start pf t0 s0 = (None, s1) \<and> captures pf cs s1 = (None, s) \<and>
           frames s = length cs \<and> added (calls s) = map snd cs"
proof -
  from started_fields [OF assms(1), of t0] obtain s1 enc where
    s1: "start pf t0 s0 = (None, s1)" "\<not> stopped s1" "DCapture.settings s1 = st"
      "DCapture.encoder s1 = Some enc" "calls s1 = [CallStart]" "frames s1 = 0"
    by blast
  have "\<exists>s' enc'. captures pf cs s1 = (None, s') \<and> \<not> stopped s' \<and>
           DCapture.encoder s' = Some enc' \<and> DCapture.settings s' = DCapture.settings s1 \<and>
           pending s' = pending s1 \<and>
           frames s' = frames s1 + length cs \<and> calls s' = calls s1 @ map (CallAdd \<circ> snd) cs"
    using s1 assms(2,3) by (intro captures_unlimited) simp_all
  then obtain s where
    "captures pf cs s1 = (None, s)" "frames s = frames s1 + length cs"
    "calls s = calls s1 @ map (CallAdd \<circ> snd) cs"
    by blast
  then show ?thesis using s1 by (auto simp: added_append added_adds)
qed

text \<open>Three frames captured by a PNG session; the second gives no blob and is forwarded all the same.\<close>

theorem capture_counts_frames_witness:
  "\<exists>s0 s1 s. new_DCapture \<lparr>has_Whammy = False, has_MediaRecorder = False, has_GIF = False,
                              has_Tar = True, has_download = False\<rparr>
                 (default_settings\<lparr>format := ''png''\<rparr>) = Inr s0 \<and>
     start \<lparr>has_Whammy = False, has_MediaRecorder = False, has_GIF = False,
            has_Tar = True, has_download = False\<rparr> 0 s0 = (None, s1) \<and>
     captures \<lparr>has_Whammy = False, has_MediaRecorder = False, has_GIF = False,
               has_Tar = True, has_download = False\<rparr>
       [(10, Canvas 4 3 (Gives (Blob (Some [1])))), (20, Canvas 4 3 NoBlob),
        (30, Canvas 4 3 (Gives (Blob (Some [2]))))] s1 = (None, s) \<and>
     frames s = 3 \<and>
     added (calls s) = [Canvas 4 3 (Gives (Blob (Some [1]))), Canvas 4 3 NoBlob,
                        Canvas 4 3 (Gives (Blob (Some [2])))]"
proof -
  let ?pf = "\<lparr>has_Whammy = False, has_MediaRecorder = False, has_GIF = False,
              has_Tar = True, has_download = False\<rparr>"
  let ?st = "default_settings\<lparr>format := ''png''\<rparr>"
  obtain s0 where s0: "new_DCapture ?pf ?st = Inr s0"
    by (simp add: new_DCapture_def createEncoder_def default_settings_def)
  have lim: "timeLimit ?st \<le> 0" "frameLimit ?st \<le> 0"
    by (simp_all add: default_settings_def)
  show ?thesis
    using s0 capture_counts_frames [OF s0 lim, of 0
        "[(10, Canvas 4 3 (Gives (Blob (Some [1])))), (20, Canvas 4 3 NoBlob),
          (30, Canvas 4 3 (Gives (Blob (Some [2]))))]"]
    by auto
qed

lemma capture_stopped: "stopped s \<Longrightarrow> capture pf now cv s = (None, s)"
  by (simp add: capture_def)

lemma captures_stopped: "stopped s \<Longrightarrow> captures pf cs s = (None, s)"
  by (induction cs) (simp_all add: capture_stopped)

lemma stop_fields [simp]:
  "stopped (stop k s)" "pending (stop k s) = pending s @ [k]" "frames (stop k s) = frames s"
  "calls (stop k s) = calls s" "DCapture.encoder (stop k s) = DCapture.encoder s"
  "DCapture.settings (stop k s) = DCapture.settings s"
  by (simp_all add: stop_def)

lemma capture_limits:
  assumes "\<not> stopped s" and "DCapture.encoder s = Some enc"
    and "motionBlurFrames (DCapture.settings s) \<le> 1"
  shows "capture pf now cv s =
           (None,
            if timeLimit_due (DCapture.settings s) (now - startTime s)
            then if 0 < frameLimit (DCapture.settings s) \<and>
                    frameLimit (DCapture.settings s) \<le> int (frames s + 1)
                 then stop ThenSave (stop ThenSave (forward pf cv enc (s\<lparr>frames := frames s + 1\<rparr>)))
                 else stop ThenSave (forward pf cv enc (s\<lparr>frames := frames s + 1\<rparr>))
            else if 0 < frameLimit (DCapture.settings s) \<and>
                    frameLimit (DCapture.settings s) \<le> int (frames s + 1)
                 then stop ThenSave (forward pf cv enc (s\<lparr>frames := frames s + 1\<rparr>))
                 else forward pf cv enc (s\<lparr>frames := frames s + 1\<rparr>))"
  using assms by (simp add: capture_def Let_def)

lemma captures_frame_limit:
  assumes "\<not> stopped s" and "DCapture.encoder s = Some enc" and "pending s = []"
    and "motionBlurFrames (DCapture.settings s) \<le> 1"
    and "frameLimit (DCapture.settings s) = int F" and "frames s < F"
    and "\<forall>c \<in> set (take (F - frames s - 1) cs).
           \<not> timeLimit_due (DCapture.settings s) (fst c - startTime s)"
  shows "\<exists>s'. captures pf cs s = (None, s') \<and>
           (frames s + length cs < F \<longrightarrow>
              \<not> stopped s' \<and> pending s' = [] \<and> frames s' = frames s + length cs \<and>
              calls s' = calls s @ map (CallAdd \<circ> snd) cs) \<and>
           (F \<le> frames s + length cs \<longrightarrow>
              stopped s' \<and>
              pending s' =
                (if timeLimit_due (DCapture.settings s) (fst (cs ! (F - frames s - 1)) - startTime s)
                 then [ThenSave, ThenSave] else [ThenSave]) \<and>
              frames s' = F \<and> DCapture.encoder s' \<noteq> None \<and>
              calls s' = calls s @ map (CallAdd \<circ> snd) (take (F - frames s) cs) \<and>
              captures pf (take (F - frames s) cs) s = (None, s'))"
  using assms
proof (induction cs arbitrary: s enc)
  case Nil
  then show ?case by simp
next
  case (Cons c cs)
  let ?s1 = "forward pf (snd c) enc (s\<lparr>frames := frames s + 1\<rparr>)"
  show ?case
  proof (cases "frames s + 1 = F")
    case True
    let ?s' = "if timeLimit_due (DCapture.settings s) (fst c - startTime s)
               then stop ThenSave (stop ThenSave ?s1) else stop ThenSave ?s1"
    have one: "capture pf (fst c) (snd c) s = (None, ?s')"
      using Cons.prems(1-5) True by (simp add: capture_limits)
    have tk: "take (F - frames s) (c # cs) = [c]" "F - frames s - 1 = 0" using True by auto
    have st: "stopped ?s'" by simp
    have rest: "captures pf cs ?s' = (None, ?s')"
      using st by (rule captures_stopped)
    show ?thesis
      using one rest True Cons.prems(3) by (simp add: tk)
  next
    case False
    then have lt: "frames s + 1 < F" using Cons.prems(6) by simp
    then have pos: "0 < F - frames s - 1" by simp
    then have "c \<in> set (take (F - frames s - 1) (c # cs))"
      by (cases "F - frames s - 1") simp_all
    then have early: "\<not> timeLimit_due (DCapture.settings s) (fst c - startTime s)"
      using Cons.prems(7) by blast
    have one: "capture pf (fst c) (snd c) s = (None, ?s1)"
      using Cons.prems(1-5) lt early by (simp add: capture_limits)
    have tk1: "take (F - frames s - 1) (c # cs) = c # take (F - frames ?s1 - 1) cs"
      using pos by (cases "F - frames s - 1") simp_all
    have later: "\<forall>c \<in> set (take (F - frames ?s1 - 1) cs).
                   \<not> timeLimit_due (DCapture.settings ?s1) (fst c - startTime ?s1)"
      using Cons.prems(7) unfolding tk1 by simp
    have "\<exists>s'. captures pf cs ?s1 = (None, s') \<and>
           (frames ?s1 + length cs < F \<longrightarrow>
              \<not> stopped s' \<and> pending s' = [] \<and> frames s' = frames ?s1 + length cs \<and>
              calls s' = calls ?s1 @ map (CallAdd \<circ> snd) cs) \<and>
           (F \<le> frames ?s1 + length cs \<longrightarrow>
              stopped s' \<and>
              pending s' =
                (if timeLimit_due (DCapture.settings ?s1)
                      (fst (cs ! (F - frames ?s1 - 1)) - startTime ?s1)
                 then [ThenSave, ThenSave] else [ThenSave]) \<and>
              frames s' = F \<and> DCapture.encoder s' \<noteq> None \<and>
              calls s' = calls ?s1 @ map (CallAdd \<circ> snd) (take (F - frames ?s1) cs) \<and>
              captures pf (take (F - frames ?s1) cs) ?s1 = (None, s'))"
      using Cons.prems(1-6) lt later by (intro Cons.IH) simp_all
    then obtain s' where
      run: "captures pf cs ?s1 = (None, s')" and
      below: "frames ?s1 + length cs < F \<longrightarrow>
              \<not> stopped s' \<and> pending s' = [] \<and> frames s' = frames ?s1 + length cs \<and>
              calls s' = calls ?s1 @ map (CallAdd \<circ> snd) cs" and
      above: "F \<le> frames ?s1 + length cs \<longrightarrow>
              stopped s' \<and>
              pending s' =
                (if timeLimit_due (DCapture.settings ?s1)
                      (fst (cs ! (F - frames ?s1 - 1)) - startTime ?s1)
                 then [ThenSave, ThenSave] else [ThenSave]) \<and>
              frames s' = F \<and> DCapture.encoder s' \<noteq> None \<and>
              calls s' = calls ?s1 @ map (CallAdd \<circ> snd) (take (F - frames ?s1) cs) \<and>
              captures pf (take (F - frames ?s1) cs) ?s1 = (None, s')"
      by blast
    have tk: "take (F - frames s) (c # cs) = c # take (F - frames s - 1) cs"
      using lt by (cases "F - frames s") simp_all
    have nth: "(c # cs) ! (F - frames s - 1) = cs ! (F - frames ?s1 - 1)"
      using pos by (cases "F - frames s - 1") simp_all
    have whole: "captures pf (c # cs) s = (None, s')" using one run by simp
    show ?thesis
    proof (cases "frames s + length (c # cs) < F")
      case True
      then show ?thesis using whole below by simp
    next
      case False
      then have "F \<le> frames ?s1 + length cs" by simp
      with above have a: "stopped s'"
        "pending s' =
           (if timeLimit_due (DCapture.settings ?s1)
                 (fst (cs ! (F - frames ?s1 - 1)) - startTime ?s1)
            then [ThenSave, ThenSave] else [ThenSave])"
        "frames s' = F" "DCapture.encoder s' \<noteq> None"
        "calls s' = calls ?s1 @ map (CallAdd \<circ> snd) (take (F - frames ?s1) cs)"
        "captures pf (take (F - frames ?s1) cs) ?s1 = (None, s')"
        by blast+
      have p: "pending s' =
                 (if timeLimit_due (DCapture.settings s)
                       (fst ((c # cs) ! (F - frames s - 1)) - startTime s)
                  then [ThenSave, ThenSave] else [ThenSave])"
        unfolding nth using a(2) by simp
      show ?thesis using whole False a(1,3,4,5,6) p one by (simp add: tk)
    qed
  qed
qed

lemma run_job_calls:
  assumes "DCapture.encoder s = Some enc" and "pending s = ThenSave # ks"
  shows "calls (run_job s) = calls s @ [CallStop, CallSave]" and "pending (run_job s) = ks"
  using assms
  by (auto simp: run_job_def stop_job_def save_def Let_def split: sum.splits)

lemma started_clock:
  assumes "new_DCapture pf st = Inr s0" and "start pf t0 s0 = (None, s1)"
  shows "startTime s1 = t0"
  using assms new_DCapture_fields(3) [OF assms(1)] by (auto simp: start_def Let_def)

lemma double_of_int:
  assumes "0 \<le> e" and "e < 2 ^ 53"
  shows "double (of_int e) = Signed False (Finite (of_int e))"
proof -
  have "int (nat e) < 2 ^ 53" using assms by simp
  then have "nat e < 2 ^ 53" by (metis of_nat_less_iff of_nat_numeral of_nat_power)
  from double_of_nat [OF this] show ?thesis using assms(1) by simp
qed

lemma timeLimit_due_finite:
  assumes "double (timeLimit st) = Signed False (Finite a)" and "0 < a"
    and "0 \<le> e" and "e < 2 ^ 53"
  shows "timeLimit_due st e \<longleftrightarrow> magnitude_le (Finite a) (round_magnitude (of_int e / 1000))"
proof -
  have gt: "number_gt (double (timeLimit st)) (double 0)"
    using assms(1,2) by (simp add: number_gt_def number_ge_def double_zero)
  have k: "double 1000 = Signed False (Finite 1000)" using double_of_nat [of 1000] by simp
  show ?thesis
    using gt by (simp add: timeLimit_due_def assms(1) k double_of_int [OF assms(3,4)]
        number_divide_def number_ge_def)
qed

lemma timeLimit_due_seconds:
  assumes "timeLimit st = of_nat T" and "0 < T" and "T < 2 ^ 53" and "1000 * k < 2 ^ 53"
  shows "timeLimit_due st (1000 * int k) \<longleftrightarrow> T \<le> k"
proof -
  have d: "double (timeLimit st) = Signed False (Finite (of_nat T))"
    unfolding assms(1) using assms(3) by (rule double_of_nat)
  have "int (1000 * k) < 2 ^ 53" using assms(4) by (metis of_nat_less_iff of_nat_numeral of_nat_power)
  then have e: "1000 * int k < 2 ^ 53" by simp
  have k: "k < 2 ^ 53" using assms(4) by simp
  have "timeLimit_due st (1000 * int k) \<longleftrightarrow>
          magnitude_le (Finite (of_nat T)) (round_magnitude (of_int (1000 * int k) / 1000))"
    using assms(2) e by (intro timeLimit_due_finite [OF d]) simp_all
  also have "of_int (1000 * int k) / 1000 = (of_nat k :: rat)" by simp
  finally show ?thesis by (simp add: round_magnitude_of_nat [OF k])
qed

text \<open>
  Claim C2, as the code has it. A session is constructed with \<^verbatim>\<open>frameLimit = F > 0\<close> and
  at most one motion-blur frame, and started at clock reading \<open>t0\<close>; none of the first
  \<open>F - 1\<close> \<^verbatim>\<open>capture\<close> calls comes at a time that reaches the time limit (a session with no
  time limit is one of these). Up to the call before the \<open>F\<close>th, \<^verbatim>\<open>capture\<close> leaves the
  stopped flag clear and the job queue empty. From the \<open>F\<close>th call on the flag is set
  and the stop-then-save job is queued (twice when the \<open>F\<close>th call also reaches the time
  limit, since each of the two tests calls \<^verbatim>\<open>stop()\<close> and chains \<^verbatim>\<open>save()\<close>), the counter is
  \<open>F\<close>, the encoder has received the first \<open>F\<close> frames, and the session is the one the
  first \<open>F\<close> calls left: later calls change nothing. When the queued job runs, it calls
  \<^verbatim>\<open>stop\<close> on the encoder and then \<^verbatim>\<open>save\<close>.
\<close>

theorem frame_limit_stops_at_F:
  assumes "new_DCapture pf st = Inr s0" and "frameLimit st = int F" and "0 < F"
    and "motionBlurFrames st \<le> 1"
    and "\<forall>c \<in> set (take (F - 1) cs). \<not> timeLimit_due st (fst c - t0)"
  shows "\<exists>s1 s. start pf t0 s0 = (None, s1) \<and> captures pf cs s1 = (None, s) \<and>
           (length cs < F \<longrightarrow> \<not> stopped s \<and> pending s = [] \<and> frames s = length cs) \<and>
           (F \<le> length cs \<longrightarrow>
              stopped s \<and>
              pending s = (if timeLimit_due st (fst (cs ! (F - 1)) - t0)
                           then [ThenSave, ThenSave] else [ThenSave]) \<and>
              frames s = F \<and> added (calls s) = map snd (take F cs) \<and>
              captures pf (take F cs) s1 = (None, s) \<and>
              calls (run_job s) = calls s @ [CallStop, CallSave])"
proof -
  from started_fields [OF assms(1), of t0] obtain s1 enc where
    s1: "start pf t0 s0 = (None, s1)" "\<not> stopped s1" "DCapture.settings s1 = st"
      "DCapture.encoder s1 = Some enc" "calls s1 = [CallStart]" "pending s1 = []" "frames s1 = 0"
    by blast
  have clock: "startTime s1 = t0" using started_clock [OF assms(1) s1(1)] .
  have "\<exists>s'. captures pf cs s1 = (None, s') \<and>
           (frames s1 + length cs < F \<longrightarrow>
              \<not> stopped s' \<and> pending s' = [] \<and> frames s' = frames s1 + length cs \<and>
              calls s' = calls s1 @ map (CallAdd \<circ> snd) cs) \<and>
           (F \<le> frames s1 + length cs \<longrightarrow>
              stopped s' \<and>
              pending s' =
                (if timeLimit_due (DCapture.settings s1) (fst (cs ! (F - frames s1 - 1)) - startTime s1)
                 then [ThenSave, ThenSave] else [ThenSave]) \<and>
              frames s' = F \<and> DCapture.encoder s' \<noteq> None \<and>
              calls s' = calls s1 @ map (CallAdd \<circ> snd) (take (F - frames s1) cs) \<and>
              captures pf (take (F - frames s1) cs) s1 = (None, s'))"
    using s1 clock assms by (intro captures_frame_limit) simp_all
  then obtain s where
    run: "captures pf cs s1 = (None, s)" and
    below: "length cs < F \<longrightarrow> \<not> stopped s \<and> pending s = [] \<and> frames s = length cs" and
    above: "F \<le> length cs \<longrightarrow>
       stopped s \<and>
       pending s = (if timeLimit_due st (fst (cs ! (F - 1)) - t0)
                    then [ThenSave, ThenSave] else [ThenSave]) \<and>
       frames s = F \<and> DCapture.encoder s \<noteq> None \<and>
       calls s = [CallStart] @ map (CallAdd \<circ> snd) (take F cs) \<and>
       captures pf (take F cs) s1 = (None, s)"
    using s1 clock by auto
  have job: "calls (run_job s) = calls s @ [CallStop, CallSave]" if "F \<le> length cs"
  proof -
    from above that obtain enc' ks where "DCapture.encoder s = Some enc'" "pending s = ThenSave # ks"
      by (auto split: if_splits)
    then show ?thesis by (rule run_job_calls)
  qed
  show ?thesis
    using s1(1) run below above job by (auto simp: added_adds)
qed

text \<open>
  With \<^verbatim>\<open>frameLimit = 2\<close> and \<^verbatim>\<open>timeLimit = 3600\<close>, one frame a second: not stopped after
  one frame; stopped, with two frames and one job queued, after three calls.
\<close>

theorem frame_limit_stops_at_F_witness:
  "\<exists>s0 s1 s s'. new_DCapture \<lparr>has_Whammy = True, has_MediaRecorder = True, has_GIF = True,
                              has_Tar = True, has_download = True\<rparr>
                 (default_settings\<lparr>format := ''png'', timeLimit := 3600, frameLimit := 2\<rparr>) = Inr s0 \<and>
     start \<lparr>has_Whammy = True, has_MediaRecorder = True, has_GIF = True,
            has_Tar = True, has_download = True\<rparr> 0 s0 = (None, s1) \<and>
     captures \<lparr>has_Whammy = True, has_MediaRecorder = True, has_GIF = True,
               has_Tar = True, has_download = True\<rparr>
       [(1000, Canvas 4 3 (Gives (Blob (Some [1]))))] s1 = (None, s) \<and>
     \<not> stopped s \<and> pending s = [] \<and> frames s = 1 \<and>
     captures \<lparr>has_Whammy = True, has_MediaRecorder = True, has_GIF = True,
               has_Tar = True, has_download = True\<rparr>
       [(1000, Canvas 4 3 (Gives (Blob (Some [1])))), (2000, Canvas 4 3 (Gives (Blob (Some [2])))),
        (3000, Canvas 4 3 (Gives (Blob (Some [3]))))] s1 = (None, s') \<and>
     stopped s' \<and> pending s' = [ThenSave] \<and> frames s' = 2 \<and>
     added (calls s') = [Canvas 4 3 (Gives (Blob (Some [1]))), Canvas 4 3 (Gives (Blob (Some [2])))] \<and>
     calls (run_job s') = calls s' @ [CallStop, CallSave]"
proof -
  let ?pf = "\<lparr>has_Whammy = True, has_MediaRecorder = True, has_GIF = True,
              has_Tar = True, has_download = True\<rparr>"
  let ?st = "default_settings\<lparr>format := ''png'', timeLimit := 3600, frameLimit := 2\<rparr>"
  obtain s0 where s0: "new_DCapture ?pf ?st = Inr s0"
    by (simp add: new_DCapture_def createEncoder_def default_settings_def)
  have t: "\<not> timeLimit_due ?st 1000" "\<not> timeLimit_due ?st 2000"
    using timeLimit_due_seconds [of ?st 3600 1] timeLimit_due_seconds [of ?st 3600 2]
    by (simp_all add: default_settings_def)
  have h: "frameLimit ?st = int 2" "0 < (2::nat)" "motionBlurFrames ?st \<le> 1"
    by (simp_all add: default_settings_def)
  have e1: "\<forall>c \<in> set (take (2 - 1) [(1000::int, Canvas 4 3 (Gives (Blob (Some [1]))))]).
              \<not> timeLimit_due ?st (fst c - 0)"
    using t by simp
  have e3: "\<forall>c \<in> set (take (2 - 1) [(1000::int, Canvas 4 3 (Gives (Blob (Some [1])))),
                                      (2000, Canvas 4 3 (Gives (Blob (Some [2])))),
                                      (3000, Canvas 4 3 (Gives (Blob (Some [3]))))]).
              \<not> timeLimit_due ?st (fst c - 0)"
    using t by simp
  show ?thesis
    using s0 t frame_limit_stops_at_F [OF s0 h e1] frame_limit_stops_at_F [OF s0 h e3]
    by auto
qed

text \<open>
  Claim C2 as stated, for every session with a frame limit, fails when the time limit is
  reached first: with \<^verbatim>\<open>frameLimit = 3\<close> and \<^verbatim>\<open>timeLimit = 1\<close>, a first \<^verbatim>\<open>capture\<close> two
  seconds after \<^verbatim>\<open>start\<close> leaves the session stopped with the save queued, at one frame.
\<close>

theorem time_limit_stops_before_F:
  "outcome (fed \<lparr>has_Whammy = True, has_MediaRecorder = True, has_GIF = True,
                 has_Tar = True, has_download = True\<rparr>
              (default_settings\<lparr>format := ''png'', frameLimit := 3, timeLimit := 1\<rparr>) 0
              [(2000, Canvas 4 3 (Gives (Blob (Some [1]))))])
     = Some (True, [ThenSave], 1)"
proof -
  let ?pf = "\<lparr>has_Whammy = True, has_MediaRecorder = True, has_GIF = True,
              has_Tar = True, has_download = True\<rparr>"
  let ?st = "default_settings\<lparr>format := ''png'', frameLimit := 3, timeLimit := 1\<rparr>"
  let ?cv = "Canvas 4 3 (Gives (Blob (Some [1])))"
  obtain s0 where s0: "new_DCapture ?pf ?st = Inr s0"
    by (simp add: new_DCapture_def createEncoder_def default_settings_def)
  from started_fields [OF s0, of 0] obtain s1 enc where
    s1: "start ?pf 0 s0 = (None, s1)" "\<not> stopped s1" "DCapture.settings s1 = ?st"
      "DCapture.encoder s1 = Some enc" "pending s1 = []" "frames s1 = 0"
    by blast
  have st: "startTime s1 = 0" using started_clock [OF s0 s1(1)] .
  have due: "timeLimit_due ?st 2000"
    using timeLimit_due_seconds [of ?st 1 2] by (simp add: default_settings_def)
  have m: "motionBlurFrames (DCapture.settings s1) \<le> 1" "frameLimit (DCapture.settings s1) = 3"
    by (simp_all add: s1(3) default_settings_def)
  have "\<exists>s. capture ?pf 2000 ?cv s1 = (None, s) \<and>
     stopped s \<and> pending s = [ThenSave] \<and> frames s = 1"
    unfolding capture_limits [OF s1(2,4) m(1)] using due s1(5,6) by (simp add: st s1(3) m(2))
  then show ?thesis
    using s0 s1(1) by (auto simp: fed_def outcome_def)
qed

text \<open>
  The motion-blur branch (\<^verbatim>\<open>motionBlurFrames > 1\<close>) is a stub: \<^verbatim>\<open>captureMotionBlur\<close> counts
  and forwards the frame and makes neither of the limit tests its sibling branch makes.
  With \<^verbatim>\<open>frameLimit = 1\<close> the first \<^verbatim>\<open>capture\<close> leaves the session running.
\<close>

lemma motion_blur_skips_limits:
  "outcome (fed \<lparr>has_Whammy = True, has_MediaRecorder = True, has_GIF = True,
                 has_Tar = True, has_download = True\<rparr>
              (default_settings\<lparr>format := ''png'', frameLimit := 1, motionBlurFrames := 2\<rparr>) 0
              [(10, Canvas 4 3 (Gives (Blob (Some [1]))))])
     = Some (False, [], 1)"
proof -
  let ?pf = "\<lparr>has_Whammy = True, has_MediaRecorder = True, has_GIF = True,
              has_Tar = True, has_download = True\<rparr>"
  let ?st = "default_settings\<lparr>format := ''png'', frameLimit := 1, motionBlurFrames := 2\<rparr>"
  let ?cv = "Canvas 4 3 (Gives (Blob (Some [1])))"
  obtain s0 where s0: "new_DCapture ?pf ?st = Inr s0"
    by (simp add: new_DCapture_def createEncoder_def default_settings_def)
  from started_fields [OF s0, of 0] obtain s1 enc where
    s1: "start ?pf 0 s0 = (None, s1)" "\<not> stopped s1" "DCapture.settings s1 = ?st"
      "DCapture.encoder s1 = Some enc" "pending s1 = []" "frames s1 = 0"
    by blast
  have "\<exists>s. capture ?pf 10 ?cv s1 = (None, s) \<and>
     \<not> stopped s \<and> pending s = [] \<and> frames s = 1"
    using s1 by (simp add: capture_def captureMotionBlur_def Let_def default_settings_def)
  then show ?thesis
    using s0 s1(1) by (auto simp: fed_def outcome_def)
qed

lemma save_fields:
  "stopped (snd (save cb s)) = stopped s" "frames (snd (save cb s)) = frames s"
  "added (calls (snd (save cb s))) = added (calls s)"
  by (auto simp: save_def added_append split: option.splits sum.splits)

lemma stop_job_fields:
  "stopped (stop_job k s) = stopped s" "frames (stop_job k s) = frames s"
  "added (calls (stop_job k s)) = added (calls s)"
proof -
  obtain r s2 where sv: "save False (s\<lparr>encoder := Some (encoder_stop (the (DCapture.encoder s))),
                                       calls := calls s @ [CallStop]\<rparr>) = (r, s2)"
    by (cases "save False (s\<lparr>encoder := Some (encoder_stop (the (DCapture.encoder s))),
                                       calls := calls s @ [CallStop]\<rparr>)") auto
  have f: "stopped s2 = stopped s" "frames s2 = frames s" "added (calls s2) = added (calls s)"
    using save_fields [of False "s\<lparr>encoder := Some (encoder_stop (the (DCapture.encoder s))),
                                       calls := calls s @ [CallStop]\<rparr>"] sv
    by (simp_all add: added_append)
  show "stopped (stop_job k s) = stopped s" "frames (stop_job k s) = frames s"
    "added (calls (stop_job k s)) = added (calls s)"
    using sv f
    by (auto simp: stop_job_def Let_def added_append split: option.splits continuation.splits)
qed

lemma run_job_fields:
  "stopped (run_job s) = stopped s" "frames (run_job s) = frames s"
  "added (calls (run_job s)) = added (calls s)"
  by (auto simp: run_job_def stop_job_fields split: list.splits)

lemma after_stopped:
  assumes "stopped s"
  shows "\<exists>rs s'. after pf evs s = (rs, s') \<and> (\<forall>r \<in> set rs. r = None) \<and> stopped s' \<and>
           frames s' = frames s \<and> added (calls s') = added (calls s)"
  using assms
proof (induction evs arbitrary: s)
  case Nil
  then show ?case by simp
next
  case (Cons ev evs)
  show ?case
  proof (cases ev)
    case (Capture now cv)
    from Cons.IH [OF Cons.prems] obtain rs s' where
      "after pf evs s = (rs, s')" "\<forall>r \<in> set rs. r = None" "stopped s'"
      "frames s' = frames s" "added (calls s') = added (calls s)"
      by blast
    then show ?thesis
      using Capture Cons.prems by (simp add: capture_stopped)
  next
    case Job
    have "stopped (run_job s)" using Cons.prems by (simp add: run_job_fields)
    from Cons.IH [OF this] obtain rs s' where
      "after pf evs (run_job s) = (rs, s')" "\<forall>r \<in> set rs. r = None" "stopped s'"
      "frames s' = frames (run_job s)" "added (calls s') = added (calls (run_job s))"
      by blast
    then show ?thesis
      using Job by (simp add: run_job_fields)
  qed
qed

text \<open>
  Claim C7. \<^verbatim>\<open>capture\<close> on a stopped session returns at once and changes nothing;
  \<^verbatim>\<open>stop()\<close> sets the flag before its promise job has run. After \<^verbatim>\<open>stop()\<close>, through
  any sequence of \<^verbatim>\<open>capture\<close> calls and promise jobs running, no call throws, the session
  stays stopped, the frame counter stays what it was, and no further frame is handed to
  the \<^verbatim>\<open>add\<close> method of the encoder.
\<close>

theorem capture_after_stop_is_noop:
  "(stopped s \<longrightarrow> capture pf now cv s = (None, s)) \<and>
   capture pf now cv (stop k s) = (None, stop k s) \<and>
   (\<exists>rs s'. after pf evs (stop k s) = (rs, s') \<and> (\<forall>r \<in> set rs. r = None) \<and> stopped s' \<and>
      frames s' = frames s \<and> added (calls s') = added (calls s))"
proof -
  have "stopped (stop k s)" by simp
  from after_stopped [OF this, of pf evs] show ?thesis
    by (simp add: capture_stopped)
qed

lemma dispose_fields [simp]:
  "DCapture.encoder (dispose pf s) = None" "stopped (dispose pf s) = stopped s"
  by (simp_all add: dispose_def Let_def split: option.splits)

lemma capture_disposed:
  "capture pf now cv (dispose pf' s) =
     (if stopped s then (None, dispose pf' s)
      else (Some (Error ''No encoder available''), dispose pf' s))"
  by (simp add: capture_def)

text \<open>
  Claim C9. After \<^verbatim>\<open>dispose()\<close>, \<^verbatim>\<open>capture\<close> throws \<^verbatim>\<open>Error('No encoder available')\<close> when
  the stopped flag is clear and returns silently when it is set; \<^verbatim>\<open>stop()\<close> sets the flag,
  and a session that was constructed, started and fed frames with no limit configured
  (so that nothing called \<^verbatim>\<open>stop()\<close>) has it clear.
\<close>

theorem capture_after_dispose:
  "(\<not> stopped s \<longrightarrow>
      capture pf now cv (dispose pf s) = (Some (Error ''No encoder available''), dispose pf s)) \<and>
   (stopped s \<longrightarrow> capture pf now cv (dispose pf s) = (None, dispose pf s)) \<and>
   capture pf now cv (dispose pf (stop k s)) = (None, dispose pf (stop k s)) \<and>
   (new_DCapture pf st = Inr s0 \<and> frameLimit st \<le> 0 \<and> timeLimit st \<le> 0 \<longrightarrow>
      (\<exists>s1 s2. start pf t0 s0 = (None, s1) \<and> captures pf cs s1 = (None, s2) \<and>
         capture pf now cv (dispose pf s2) =
           (Some (Error ''No encoder available''), dispose pf s2)))"
proof -
  have fresh: "\<exists>s1 s2. start pf t0 s0 = (None, s1) \<and> captures pf cs s1 = (None, s2) \<and>
         capture pf now cv (dispose pf s2) =
           (Some (Error ''No encoder available''), dispose pf s2)"
    if c: "new_DCapture pf st = Inr s0" and l: "frameLimit st \<le> 0" "timeLimit st \<le> 0"
  proof -
    from started_fields [OF c, of t0] obtain s1 enc where
      s1: "start pf t0 s0 = (None, s1)" "\<not> stopped s1" "DCapture.settings s1 = st"
        "DCapture.encoder s1 = Some enc"
      by blast
    have "\<exists>s' enc'. captures pf cs s1 = (None, s') \<and> \<not> stopped s' \<and>
           DCapture.encoder s' = Some enc' \<and> DCapture.settings s' = DCapture.settings s1 \<and>
           pending s' = pending s1 \<and>
           frames s' = frames s1 + length cs \<and> calls s' = calls s1 @ map (CallAdd \<circ> snd) cs"
      using s1 l by (intro captures_unlimited) simp_all
    then obtain s2 where "captures pf cs s1 = (None, s2)" "\<not> stopped s2" by blast
    then show ?thesis using s1(1) by (simp add: capture_disposed)
  qed
  show ?thesis
    using fresh by (simp add: capture_disposed)
qed

lemma capture_with_encoder:
  assumes "DCapture.encoder s = Some enc"
  shows "\<exists>s' enc'. capture pf now cv s = (None, s') \<and> DCapture.encoder s' = Some enc'"
  using assms by (simp add: capture_def captureMotionBlur_def Let_def)

lemma captures_with_encoder:
  assumes "DCapture.encoder s = Some enc"
  shows "\<exists>s' enc'. captures pf cs s = (None, s') \<and> DCapture.encoder s' = Some enc'"
  using assms
proof (induction cs arbitrary: s enc)
  case Nil
  then show ?case by simp
next
  case (Cons c cs)
  from capture_with_encoder [OF Cons.prems, of pf "fst c" "snd c"] obtain s1 enc1 where
    one: "capture pf (fst c) (snd c) s = (None, s1)" "DCapture.encoder s1 = Some enc1"
    by blast
  from Cons.IH [OF one(2)] one(1) show ?case by simp
qed








text \<open>
  Frame capture in an archive session with \<^verbatim>\<open>Tar\<close> missing is not covered by the
  theorem: the tape is still \<^verbatim>\<open>null\<close>, \<^verbatim>\<open>onload\<close> does not test it as \<^verbatim>\<open>save\<close> does, and
  for every frame that is converted and read \<^verbatim>\<open>this.tape.append\<close> throws a TypeError
  that reaches no caller.
\<close>

lemma capture_without_Tar_uncaught:
  "\<exists>s0 s1 s.
     new_DCapture \<lparr>has_Whammy = True, has_MediaRecorder = True, has_GIF = True,
                   has_Tar = False, has_download = True\<rparr>
       (default_settings\<lparr>format := ''png''\<rparr>) = Inr s0 \<and>
     start \<lparr>has_Whammy = True, has_MediaRecorder = True, has_GIF = True,
            has_Tar = False, has_download = True\<rparr> 0 s0 = (None, s1) \<and>
     captures \<lparr>has_Whammy = True, has_MediaRecorder = True, has_GIF = True,
               has_Tar = False, has_download = True\<rparr>
       [(10, Canvas 4 3 (Gives (Blob (Some [1])))), (20, Canvas 4 3 (Gives (Blob (Some [2]))))] s1
       = (None, s) \<and>
     uncaught s = [TypeError ''Cannot read properties of null (reading append)'',
                   TypeError ''Cannot read properties of null (reading append)'']"
  by (simp add: new_DCapture_def createEncoder_def default_settings_def attachEncoderEvents_def
      attach_def start_def Let_def encoder_start_def new_DCPNGEncoder_def new_DCTarEncoder_def
      DCTarEncoder_start_def DCTarEncoder_dispose_def emit_logged_def capture_def forward_def
      encoder_add_def DCPNGEncoder_add_def toBlob_callback_def DCTarEncoder_add_def onload_def
      timeLimit_not_due)

text \<open>One frame, \<^verbatim>\<open>stop()\<close>, then a capture before the promise job runs and one after.\<close>

theorem capture_after_stop_is_noop_witness:
  "\<exists>s0 s1 s2 rs s'.
     new_DCapture \<lparr>has_Whammy = False, has_MediaRecorder = False, has_GIF = False,
                   has_Tar = True, has_download = False\<rparr>
       (default_settings\<lparr>format := ''png''\<rparr>) = Inr s0 \<and>
     start \<lparr>has_Whammy = False, has_MediaRecorder = False, has_GIF = False,
            has_Tar = True, has_download = False\<rparr> 0 s0 = (None, s1) \<and>
     captures \<lparr>has_Whammy = False, has_MediaRecorder = False, has_GIF = False,
               has_Tar = True, has_download = False\<rparr>
       [(10, Canvas 4 3 (Gives (Blob (Some [1]))))] s1 = (None, s2) \<and>
     after \<lparr>has_Whammy = False, has_MediaRecorder = False, has_GIF = False,
            has_Tar = True, has_download = False\<rparr>
       [Capture 20 (Canvas 4 3 (Gives (Blob (Some [2])))), Job,
        Capture 30 (Canvas 4 3 (Gives (Blob (Some [3]))))] (stop Nothing s2) = (rs, s') \<and>
     stopped s' \<and> frames s' = 1 \<and>
     added (calls s') = [Canvas 4 3 (Gives (Blob (Some [1])))]"
proof -
  let ?pf = "\<lparr>has_Whammy = False, has_MediaRecorder = False, has_GIF = False,
              has_Tar = True, has_download = False\<rparr>"
  let ?st = "default_settings\<lparr>format := ''png''\<rparr>"
  let ?cs = "[(10::int, Canvas 4 3 (Gives (Blob (Some [1]))))]"
  obtain s0 where s0: "new_DCapture ?pf ?st = Inr s0"
    by (simp add: new_DCapture_def createEncoder_def default_settings_def)
  from started_fields [OF s0, of 0] obtain s1 enc where
    s1: "start ?pf 0 s0 = (None, s1)" "\<not> stopped s1" "DCapture.settings s1 = ?st"
      "DCapture.encoder s1 = Some enc" "calls s1 = [CallStart]" "frames s1 = 0"
    by blast
  have "\<exists>s' enc'. captures ?pf ?cs s1 = (None, s') \<and> \<not> stopped s' \<and>
           DCapture.encoder s' = Some enc' \<and> DCapture.settings s' = DCapture.settings s1 \<and>
           pending s' = pending s1 \<and>
           frames s' = frames s1 + length ?cs \<and> calls s' = calls s1 @ map (CallAdd \<circ> snd) ?cs"
    using s1 by (intro captures_unlimited) (simp_all add: default_settings_def)
  then obtain s2 where
    s2: "captures ?pf ?cs s1 = (None, s2)" "frames s2 = 1"
      "added (calls s2) = [Canvas 4 3 (Gives (Blob (Some [1])))]"
    using s1 by auto
  show ?thesis
    using s0 s1(1) s2
      capture_after_stop_is_noop [of s2 ?pf 0 "Canvas 0 0 NoBlob" Nothing
        "[Capture 20 (Canvas 4 3 (Gives (Blob (Some [2])))), Job,
          Capture 30 (Canvas 4 3 (Gives (Blob (Some [3]))))]"]
    by auto
qed

text \<open>One frame, then \<^verbatim>\<open>dispose()\<close>: the next capture throws; with \<^verbatim>\<open>stop()\<close> before \<^verbatim>\<open>dispose()\<close> it returns.\<close>

theorem capture_after_dispose_witness:
  "\<exists>s0 s1 s2.
     new_DCapture \<lparr>has_Whammy = False, has_MediaRecorder = False, has_GIF = False,
                   has_Tar = True, has_download = False\<rparr>
       (default_settings\<lparr>format := ''png''\<rparr>) = Inr s0 \<and>
     start \<lparr>has_Whammy = False, has_MediaRecorder = False, has_GIF = False,
            has_Tar = True, has_download = False\<rparr> 0 s0 = (None, s1) \<and>
     captures \<lparr>has_Whammy = False, has_MediaRecorder = False, has_GIF = False,
               has_Tar = True, has_download = False\<rparr>
       [(10, Canvas 4 3 (Gives (Blob (Some [1]))))] s1 = (None, s2) \<and>
     capture \<lparr>has_Whammy = False, has_MediaRecorder = False, has_GIF = False,
              has_Tar = True, has_download = False\<rparr> 20 (Canvas 4 3 NoBlob)
       (dispose \<lparr>has_Whammy = False, has_MediaRecorder = False, has_GIF = False,
                 has_Tar = True, has_download = False\<rparr> s2) =
       (Some (Error ''No encoder available''),
        dispose \<lparr>has_Whammy = False, has_MediaRecorder = False, has_GIF = False,
                 has_Tar = True, has_download = False\<rparr> s2) \<and>
     capture \<lparr>has_Whammy = False, has_MediaRecorder = False, has_GIF = False,
              has_Tar = True, has_download = False\<rparr> 20 (Canvas 4 3 NoBlob)
       (dispose \<lparr>has_Whammy = False, has_MediaRecorder = False, has_GIF = False,
                 has_Tar = True, has_download = False\<rparr> (stop Nothing s2)) =
       (None,
        dispose \<lparr>has_Whammy = False, has_MediaRecorder = False, has_GIF = False,
                 has_Tar = True, has_download = False\<rparr> (stop Nothing s2))"
proof -
  let ?pf = "\<lparr>has_Whammy = False, has_MediaRecorder = False, has_GIF = False,
              has_Tar = True, has_download = False\<rparr>"
  let ?st = "default_settings\<lparr>format := ''png''\<rparr>"
  let ?cs = "[(10::int, Canvas 4 3 (Gives (Blob (Some [1]))))]"
  obtain s0 where s0: "new_DCapture ?pf ?st = Inr s0"
    by (simp add: new_DCapture_def createEncoder_def default_settings_def)
  have l: "frameLimit ?st \<le> 0" "timeLimit ?st \<le> 0" by (simp_all add: default_settings_def)
  from capture_after_dispose [of _ ?pf 20 "Canvas 4 3 NoBlob" Nothing ?st s0 0 ?cs] s0 l
  obtain s1 s2 where
    a: "start ?pf 0 s0 = (None, s1)" "captures ?pf ?cs s1 = (None, s2)"
      "capture ?pf 20 (Canvas 4 3 NoBlob) (dispose ?pf s2) =
         (Some (Error ''No encoder available''), dispose ?pf s2)"
    by blast
  show ?thesis
    using s0 a capture_after_dispose [of s2 ?pf 20 "Canvas 4 3 NoBlob" Nothing ?st s0 0 ?cs]
    by blast
qed

text \<open>
  Claim C6. \<^verbatim>\<open>save(callback)\<close> on an archive encoder with no tape returns normally
  with one more \<^verbatim>\<open>error\<close> event emitted and nothing else changed, whatever the callback
  is: the callback is not called and no archive is recorded as handed over. An encoder of
  any of the three archive classes has no tape when it comes from its constructor.
\<close>

theorem save_without_tape_reports_error:
  "(tape e = None \<longrightarrow>
      DCTarEncoder_save callback e =
        Inr (e\<lparr>emitted := emitted e @ [(''error'', Message ''No tape available for saving'')]\<rparr>)) \<and>
   tape (new_archive_encoder ext st) = None \<and>
   tape (new_DCTarEncoder st) = None \<and> tape (new_DCPNGEncoder st) = None \<and>
   tape (new_DCJPEGEncoder st) = None"
  by (simp add: DCTarEncoder_save_def emit_logged_def new_archive_encoder_def new_DCTarEncoder_def
      new_DCPNGEncoder_def new_DCJPEGEncoder_def)

text \<open>A callback that would throw if it were called: \<^verbatim>\<open>save\<close> returns normally.\<close>

theorem save_without_tape_reports_error_witness:
  "\<exists>e. DCTarEncoder_save (Some (\<lambda>blob e. Inl (Error ''the callback was called'')))
          (new_DCPNGEncoder default_settings) = Inr e \<and>
        emitted e = [(''error'', Message ''No tape available for saving'')] \<and>
        saved e = [] \<and> tape e = None"
  using save_without_tape_reports_error [of "new_DCPNGEncoder default_settings"
      "Some (\<lambda>blob e. Inl (Error ''the callback was called''))" "''.png''" default_settings]
  by (simp add: new_DCPNGEncoder_def new_DCTarEncoder_def)

subsection \<open>Archives of a recording\<close>

lemma started_archive_fields:
  assumes "has_Tar pf"
  shows "tape (DCTarEncoder_start pf (new_archive_encoder ext st)) = Some []"
    and "count (DCTarEncoder_start pf (new_archive_encoder ext st)) = 0"
    and "saved (DCTarEncoder_start pf (new_archive_encoder ext st)) = []"
    and "DCTarEncoder.frames (DCTarEncoder_start pf (new_archive_encoder ext st)) = 0"
    and "fileExtension (DCTarEncoder_start pf (new_archive_encoder ext st)) = ext"
    and "encoder_base.settings (DCTarEncoder_start pf (new_archive_encoder ext st)) = st"
  using assms
  by (simp_all add: DCTarEncoder_start_def DCTarEncoder_dispose_def new_archive_encoder_def
      new_DCTarEncoder_def)

lemma archives_with_tape: "tape e = Some t \<Longrightarrow> archives e = saved e @ [t]"
  by (simp add: archives_def)

lemma hd_numbered: "0 < n \<Longrightarrow> hd (numbered ext c n) = entry_name ext c"
  by (simp add: numbered_def upt_conv_Cons)

lemma later_part_offset:
  assumes "\<forall>p \<in> set (butlast ps). p \<noteq> []" and "0 < i" and "i < length ps"
  shows "0 < length (concat (take i ps))"
proof (cases ps)
  case Nil
  then show ?thesis using assms(3) by simp
next
  case (Cons p rest)
  then have "rest \<noteq> []" using assms(2,3) by auto
  then have "p \<in> set (butlast ps)" using Cons by simp
  with assms(1) have "p \<noteq> []" by blast
  moreover from assms(2) obtain j where "i = Suc j" by (cases i) auto
  ultimately show ?thesis using Cons by simp
qed

text \<open>
  Claim C10. When an auto-save is due, \<^verbatim>\<open>onload\<close> hands over the tape with the new
  entry, named by the counter, and leaves an empty tape, the counter one higher, the part
  number one higher and the frame count of the part at zero; the next entry read is the
  first of the new part, named by the old counter plus one, which is not
  \<^verbatim>\<open>000000\<close>. Over a whole run of \<^verbatim>\<open>add\<close> calls on a started encoder, the names of all
  entries, through the archives handed over and the tape held, are those of the counter
  values from zero up, their numbers are \<open>0, 1, 2, \<dots>\<close>, and no archive after the first
  begins with \<^verbatim>\<open>000000\<close>.
\<close>

theorem rotation_keeps_counter:
  assumes "has_Tar pf"
  shows "(tape e = Some t \<and> autoSave_due (encoder_base.settings e) (DCTarEncoder.frames e) \<longrightarrow>
            (\<exists>e'. onload pf r e = Inr e' \<and>
                  saved e' = saved e @ [t @ [(entry_name (fileExtension e) (count e), r)]] \<and>
                  tape e' = Some [] \<and> count e' = count e + 1 \<and> DCTarEncoder.frames e' = 0 \<and>
                  part e' = part e + 1 \<and>
                  (\<exists>e''. onload pf r' e' = Inr e'' \<and>
                         tape e'' = Some [(entry_name (fileExtension e) (count e + 1), r')]) \<and>
                  entry_name (fileExtension e) (count e + 1) \<noteq> ''000000'' @ fileExtension e)) \<and>
         (\<exists>e t. adds pf bs (DCTarEncoder_start pf (new_archive_encoder ext st)) = Inr e \<and>
                tape e = Some t \<and>
                map fst (concat (archives e)) = numbered ext 0 (count e) \<and>
                map (entry_number ext \<circ> fst) (concat (archives e)) = [0 ..< count e] \<and>
                (\<forall>i. 0 < i \<and> i < length (archives e) \<and> archives e ! i \<noteq> [] \<longrightarrow>
                     fst (hd (archives e ! i)) \<noteq> ''000000'' @ ext))"
proof -
  have zero: "entry_name x (Suc k) \<noteq> ''000000'' @ x" for x k
  proof
    assume "entry_name x (Suc k) = ''000000'' @ x"
    then have "entry_name x (Suc k) = entry_name x 0" by (simp add: entry_name_def pad_zero)
    then show False using entry_name_inject by blast
  qed
  have step: "\<exists>e'. onload pf r e = Inr e' \<and>
                  saved e' = saved e @ [t @ [(entry_name (fileExtension e) (count e), r)]] \<and>
                  tape e' = Some [] \<and> count e' = count e + 1 \<and> DCTarEncoder.frames e' = 0 \<and>
                  part e' = part e + 1 \<and>
                  (\<exists>e''. onload pf r' e' = Inr e'' \<and>
                         tape e'' = Some [(entry_name (fileExtension e) (count e + 1), r')]) \<and>
                  entry_name (fileExtension e) (count e + 1) \<noteq> ''000000'' @ fileExtension e"
    if t: "tape e = Some t" and due: "autoSave_due (encoder_base.settings e) (DCTarEncoder.frames e)"
  proof -
    from onload_rotate [OF assms t due, of r] obtain e' where
      e': "onload pf r e = Inr e'" "tape e' = Some []" "count e' = count e + 1"
        "DCTarEncoder.frames e' = 0" "part e' = part e + 1"
        "saved e' = saved e @ [t @ [(entry_name (fileExtension e) (count e), r)]]"
        "fileExtension e' = fileExtension e"
      by blast
    have nd: "\<not> autoSave_due (encoder_base.settings e') (DCTarEncoder.frames e')"
      using e'(4) by (simp add: autoSave_never_due_at_zero)
    have "\<exists>e''. onload pf r' e' = Inr e'' \<and>
            tape e'' = Some [(entry_name (fileExtension e) (count e + 1), r')]"
      using onload_append [OF e'(2) nd, of pf r'] e'
      by (simp add: step_def emit_logged_def)
    then show ?thesis using e' zero [of "fileExtension e" "count e"] by simp
  qed
  let ?e0 = "DCTarEncoder_start pf (new_archive_encoder ext st)"
  have init: "map fst (concat (saved ?e0) @ []) = numbered (fileExtension ?e0) 0 (count ?e0)"
    by (simp add: started_archive_fields [OF assms] numbered_def)
  from adds_names [OF assms started_archive_fields(1) [OF assms] init, of bs] obtain e t where
    e: "adds pf bs ?e0 = Inr e" "tape e = Some t"
      "map fst (concat (saved e) @ t) = numbered ext 0 (count e)"
    by (auto simp: started_archive_fields [OF assms])
  have names: "map fst (concat (archives e)) = numbered ext 0 (count e)"
    using e by (simp add: archives_with_tape)
  have numbers: "map (entry_number ext \<circ> fst) (concat (archives e)) = [0 ..< count e]"
    using arg_cong [OF names, of "map (entry_number ext)"]
    by (simp add: entry_numbers_numbered)
  have ne: "\<forall>p \<in> set (saved e). p \<noteq> []"
    using adds_saved_nonempty [OF assms started_archive_fields(1) [OF assms] _ e(1)]
    by (simp add: started_archive_fields [OF assms])
  have later: "fst (hd (archives e ! i)) \<noteq> ''000000'' @ ext"
    if i: "0 < i" "i < length (archives e)" "archives e ! i \<noteq> []" for i
  proof -
    let ?c = "length (concat (take i (archives e)))"
    have "\<forall>p \<in> set (butlast (archives e)). p \<noteq> []"
      using ne e(2) by (simp add: archives_with_tape)
    from later_part_offset [OF this i(1,2)] obtain k where k: "?c = Suc k"
      by (cases ?c) auto
    have "map fst (archives e ! i) = numbered ext ?c (length (archives e ! i))"
      using part_names [OF names i(2)] .
    then have "hd (map fst (archives e ! i)) = entry_name ext ?c"
      using i(3) by (simp add: hd_numbered)
    then have "fst (hd (archives e ! i)) = entry_name ext (Suc k)"
      using i(3) k by (simp add: hd_map)
    then show ?thesis using zero [of ext k] by simp
  qed
  show ?thesis
    using step e(1,2) names numbers later by blast
qed

lemma encoder_add_archive:
  assumes "archive_of enc = Some e" and "toBlob cv = Gives b" and "DCTarEncoder_add pf b e = Inr e'"
  shows "archive_of (fst (encoder_add pf cv enc)) = Some e'"
  using assms
  by (cases enc)
    (simp_all add: archive_of_def encoder_add_def DCPNGEncoder_add_def DCJPEGEncoder_add_def
      toBlob_callback_def)

lemma captures_archive:
  assumes "\<not> stopped s" and "DCapture.encoder s = Some enc" and "archive_of enc = Some e"
    and "frameLimit (DCapture.settings s) \<le> 0" and "timeLimit (DCapture.settings s) \<le> 0"
    and "\<forall>c \<in> set cs. toBlob (snd c) = Gives (blob_of (snd c))"
    and "adds pf (map (\<lambda>c. blob_of (snd c)) cs) e = Inr e'"
  shows "\<exists>s' enc'. captures pf cs s = (None, s') \<and> \<not> stopped s' \<and>
           DCapture.encoder s' = Some enc' \<and> archive_of enc' = Some e' \<and>
           pending s' = pending s"
  using assms
proof (induction cs arbitrary: s enc e)
  case Nil
  then show ?case by simp
next
  case (Cons c cs)
  let ?s1 = "forward pf (snd c) enc (s\<lparr>frames := frames s + 1\<rparr>)"
  have one: "capture pf (fst c) (snd c) s = (None, ?s1)"
    using Cons.prems(1,2,4,5) by (rule capture_unlimited)
  from Cons.prems(7) obtain e1 where
    e1: "DCTarEncoder_add pf (blob_of (snd c)) e = Inr e1" and
    rest: "adds pf (map (\<lambda>c. blob_of (snd c)) cs) e1 = Inr e'"
    by (auto split: sum.splits)
  have gives: "toBlob (snd c) = Gives (blob_of (snd c))" using Cons.prems(6) by simp
  have a1: "archive_of (fst (encoder_add pf (snd c) enc)) = Some e1"
    using encoder_add_archive [OF Cons.prems(3) gives e1] .
  have "\<exists>s' enc'. captures pf cs ?s1 = (None, s') \<and> \<not> stopped s' \<and>
           DCapture.encoder s' = Some enc' \<and> archive_of enc' = Some e' \<and>
           pending s' = pending ?s1"
    using Cons.prems(1,4,5,6) a1 rest by (intro Cons.IH) simp_all
  then show ?case using one by auto
qed

lemma convertible_gives: "convertible cv \<Longrightarrow> toBlob cv = Gives (blob_of cv) \<and> readable (blob_of cv)"
  by (auto simp: convertible_def blob_of_def split: conversion.splits)

lemma new_archive_session:
  assumes "format st = ''png'' \<or> format st = ''jpg'' \<or> format st = ''jpeg''"
  shows "\<exists>s0 enc. new_DCapture pf st = Inr s0 \<and> DCapture.encoder s0 = Some enc \<and>
           archive_of enc = Some (attach (new_archive_encoder
             (if format st = ''png'' then ''.png'' else ''.jpg'') st))"
  using assms
  by (auto simp: new_DCapture_def createEncoder_def attachEncoderEvents_def archive_of_def
      new_archive_encoder_def new_DCPNGEncoder_def new_DCJPEGEncoder_def)

lemma start_archive_session:
  assumes "new_DCapture pf st = Inr s0" and "DCapture.encoder s0 = Some enc"
    and "archive_of enc = Some e"
  shows "\<exists>s1 enc1. start pf t0 s0 = (None, s1) \<and> \<not> stopped s1 \<and> DCapture.settings s1 = st \<and>
           pending s1 = [] \<and> DCapture.encoder s1 = Some enc1 \<and>
           archive_of enc1 = Some (DCTarEncoder_start pf e)"
proof -
  have f: "\<not> stopped s0" "DCapture.settings s0 = st" "pending s0 = []"
    using new_DCapture_fields [OF assms(1)] by simp_all
  have "archive_of (encoder_start pf enc) = Some (DCTarEncoder_start pf e)"
    using assms(3) by (cases enc) (simp_all add: archive_of_def encoder_start_def)
  then show ?thesis
    using f by (simp add: start_with_encoder [OF assms(2)])
qed

lemma stop_then_save_archive:
  assumes "DCapture.encoder s = Some enc" and "archive_of enc = Some e" and "tape e = Some t"
    and "pending s = []"
  shows "\<exists>s'. save True (run_job (stop Nothing s)) = (None, s') \<and> artifacts s' = saved e @ [t]"
proof -
  have stop: "archive_of (encoder_stop enc) = Some (e\<lparr>state := ''finished''\<rparr>)"
    using assms(2) by (cases enc) (simp_all add: archive_of_def encoder_stop_def)
  have job: "DCapture.encoder (run_job (stop Nothing s)) = Some (encoder_stop enc)"
    using assms(1,4) by (simp add: run_job_def stop_def stop_job_def Let_def)
  obtain e' where sv: "encoder_save True (encoder_stop enc) = Inr e'"
    and a: "archive_of e' = Some (e\<lparr>state := ''finished'', saved := saved e @ [t]\<rparr>)"
    using stop assms(3)
    by (cases "encoder_stop enc")
      (auto simp: archive_of_def encoder_save_def DCTarEncoder_save_def caller_callback_def)
  show ?thesis
    using job sv a by (simp add: save_def artifacts_def)
qed

lemma archive_recording:
  assumes "format st = ''png'' \<or> format st = ''jpg'' \<or> format st = ''jpeg''"
    and "frameLimit st \<le> 0" and "timeLimit st \<le> 0"
    and "\<forall>c \<in> set cs. toBlob (snd c) = Gives (blob_of (snd c))"
    and "adds pf (map (\<lambda>c. blob_of (snd c)) cs)
           (DCTarEncoder_start pf
              (attach (new_archive_encoder (if format st = ''png'' then ''.png'' else ''.jpg'') st)))
         = Inr e"
    and "tape e = Some t"
  shows "\<exists>s. recording pf st t0 cs = Inr s \<and> artifacts s = saved e @ [t]"
proof -
  from new_archive_session [OF assms(1), of pf] obtain s0 enc where
    s0: "new_DCapture pf st = Inr s0" "DCapture.encoder s0 = Some enc"
      "archive_of enc = Some (attach (new_archive_encoder
         (if format st = ''png'' then ''.png'' else ''.jpg'') st))"
    by blast
  from start_archive_session [OF s0, of t0] obtain s1 enc1 where
    s1: "start pf t0 s0 = (None, s1)" "\<not> stopped s1" "DCapture.settings s1 = st"
      "pending s1 = []" "DCapture.encoder s1 = Some enc1"
      "archive_of enc1 = Some (DCTarEncoder_start pf (attach (new_archive_encoder
         (if format st = ''png'' then ''.png'' else ''.jpg'') st)))"
    by blast
  have "\<exists>s' enc'. captures pf cs s1 = (None, s') \<and> \<not> stopped s' \<and>
           DCapture.encoder s' = Some enc' \<and> archive_of enc' = Some e \<and>
           pending s' = pending s1"
    using s1 assms by (intro captures_archive) simp_all
  then obtain s2 enc2 where
    s2: "captures pf cs s1 = (None, s2)" "DCapture.encoder s2 = Some enc2"
      "archive_of enc2 = Some e" "pending s2 = []"
    using s1(4) by auto
  from stop_then_save_archive [OF s2(2,3) assms(6) s2(4)] obtain s3 where
    "save True (run_job (stop Nothing s2)) = (None, s3)" "artifacts s3 = saved e @ [t]"
    by blast
  then show ?thesis
    using s0(1) s1(1) s2(1) by (simp add: recording_def)
qed

lemma not_due_without_interval: "autoSaveTime st \<le> 0 \<Longrightarrow> \<not> autoSave_due st n"
  by (simp add: autoSave_due_def not_gt_zero)

lemma started_attached_fields:
  assumes "has_Tar pf"
  shows "tape (DCTarEncoder_start pf (attach (new_archive_encoder ext st))) = Some []"
    and "count (DCTarEncoder_start pf (attach (new_archive_encoder ext st))) = 0"
    and "saved (DCTarEncoder_start pf (attach (new_archive_encoder ext st))) = []"
    and "DCTarEncoder.frames (DCTarEncoder_start pf (attach (new_archive_encoder ext st))) = 0"
    and "fileExtension (DCTarEncoder_start pf (attach (new_archive_encoder ext st))) = ext"
    and "encoder_base.settings (DCTarEncoder_start pf (attach (new_archive_encoder ext st))) = st"
  using assms
  by (simp_all add: DCTarEncoder_start_def DCTarEncoder_dispose_def new_archive_encoder_def
      new_DCTarEncoder_def attach_def)

lemma numbered_Suc: "numbered ext c (Suc n) = entry_name ext c # numbered ext (Suc c) n"
proof -
  have "[c ..< c + Suc n] = c # [Suc c ..< Suc c + n]"
    by (simp add: upt_conv_Cons del: upt_Suc)
  then show ?thesis by (simp only: numbered_def list.map)
qed

lemma adds_entries:
  assumes "\<forall>n. \<not> autoSave_due (encoder_base.settings e) n" and "tape e = Some t"
  shows "\<exists>e'. adds pf bs e = Inr e' \<and> saved e' = saved e \<and>
           tape e' = Some (t @ zip (numbered (fileExtension e) (count e)
                                      (length (List.map_filter read_result bs)))
                                   (List.map_filter read_result bs))"
  using assms
proof (induction bs arbitrary: e t)
  case Nil
  then show ?case by (simp add: List.map_filter_simps numbered_def)
next
  case (Cons b bs)
  show ?case
  proof (cases "read_result b")
    case None
    let ?e1 = "onerror e"
    have one: "DCTarEncoder_add pf b e = Inr ?e1" using None by (simp add: DCTarEncoder_add_def)
    have f: "tape ?e1 = Some t" "saved ?e1 = saved e" "fileExtension ?e1 = fileExtension e"
      "count ?e1 = count e" "encoder_base.settings ?e1 = encoder_base.settings e"
      using Cons.prems(2) by (simp_all add: onerror_def emit_logged_def)
    have nd: "\<forall>n. \<not> autoSave_due (encoder_base.settings ?e1) n" using Cons.prems(1) f by simp
    from Cons.IH [OF nd f(1)] one None f show ?thesis
      by (simp add: List.map_filter_simps)
  next
    case (Some r)
    let ?e1 = "step (e\<lparr>tape := Some (t @ [(entry_name (fileExtension e) (count e), r)]),
                          count := count e + 1,
                          DCTarEncoder.frames := DCTarEncoder.frames e + 1\<rparr>)"
    have nd0: "\<not> autoSave_due (encoder_base.settings e) (DCTarEncoder.frames e)"
      using Cons.prems(1) by simp
    have one: "DCTarEncoder_add pf b e = Inr ?e1"
      using Some onload_append [OF Cons.prems(2) nd0, of pf r] by (simp add: DCTarEncoder_add_def)
    have f: "tape ?e1 = Some (t @ [(entry_name (fileExtension e) (count e), r)])"
      "saved ?e1 = saved e" "fileExtension ?e1 = fileExtension e" "count ?e1 = Suc (count e)"
      "encoder_base.settings ?e1 = encoder_base.settings e"
      by (simp_all add: step_def emit_logged_def)
    have nd: "\<forall>n. \<not> autoSave_due (encoder_base.settings ?e1) n" using Cons.prems(1) f by simp
    from Cons.IH [OF nd f(1)] obtain e' where
      "adds pf bs ?e1 = Inr e'" "saved e' = saved ?e1"
      "tape e' = Some ((t @ [(entry_name (fileExtension e) (count e), r)]) @
                  zip (numbered (fileExtension ?e1) (count ?e1)
                         (length (List.map_filter read_result bs)))
                      (List.map_filter read_result bs))"
      by blast
    then show ?thesis
      using one Some f by (simp add: List.map_filter_simps numbered_Suc)
  qed
qed

lemma pad_first_three:
  "pad 0 = ''000000''" "pad (Suc 0) = ''000001''" "pad (Suc (Suc 0)) = ''000002''"
  by code_simp+

lemma three_frames_archive:
  assumes "has_Tar pf" and "format st = ''png''" and "autoSaveTime st \<le> 0"
    and "frameLimit st \<le> 0" and "timeLimit st \<le> 0"
  shows "\<exists>s. recording pf st t0
               [(t1, Canvas w h (Gives (Blob (Some b1)))), (t2, Canvas w h (Gives (Blob (Some b2)))),
                (t3, Canvas w h (Gives (Blob (Some b3))))] = Inr s \<and>
             artifacts s = [[(''000000.png'', b1), (''000001.png'', b2), (''000002.png'', b3)]]"
proof -
  let ?cs = "[(t1, Canvas w h (Gives (Blob (Some b1)))), (t2, Canvas w h (Gives (Blob (Some b2)))),
              (t3, Canvas w h (Gives (Blob (Some b3))))]"
  let ?e0 = "DCTarEncoder_start pf (attach (new_archive_encoder ''.png'' st))"
  note f = started_attached_fields [OF assms(1), of "''.png''" st]
  have nd: "\<forall>n. \<not> autoSave_due (encoder_base.settings ?e0) n"
    using assms(3) by (simp add: f not_due_without_interval)
  from adds_entries [OF nd f(1), of pf "map (\<lambda>c. blob_of (snd c)) ?cs"] obtain e where
    e: "adds pf (map (\<lambda>c. blob_of (snd c)) ?cs) ?e0 = Inr e" "saved e = []"
      "tape e = Some [(''000000.png'', b1), (''000001.png'', b2), (''000002.png'', b3)]"
    by (auto simp: f blob_of_def List.map_filter_simps numbered_def entry_name_def
        upt_conv_Cons pad_first_three)
  have fmt: "format st = ''png'' \<or> format st = ''jpg'' \<or> format st = ''jpeg''"
    using assms(2) by simp
  have gives: "\<forall>c \<in> set ?cs. toBlob (snd c) = Gives (blob_of (snd c))"
    by (simp add: blob_of_def)
  have e0: "adds pf (map (\<lambda>c. blob_of (snd c)) ?cs)
             (DCTarEncoder_start pf
                (attach (new_archive_encoder (if format st = ''png'' then ''.png'' else ''.jpg'') st)))
            = Inr e"
    using e(1) assms(2) by simp
  from archive_recording [OF fmt assms(4,5) gives e0 e(3), of t0] e(2) show ?thesis by simp
qed

lemma onload_rotate_download:
  assumes "has_Tar pf" and "tape e = Some t"
    and "autoSave_due (encoder_base.settings e) (DCTarEncoder.frames e)"
  shows "\<exists>e'. onload pf r e = Inr e' \<and> tape e' = Some [] \<and> DCTarEncoder.frames e' = 0 \<and>
           saved e' = saved e @ [t @ [(entry_name (fileExtension e) (count e), r)]] \<and>
           encoder_base.settings e' = encoder_base.settings e \<and>
           (has_download pf \<longrightarrow>
              map fst (downloads e') =
                map fst (downloads e) @ [t @ [(entry_name (fileExtension e) (count e), r)]])"
  using assms
  by (simp add: onload_def entry_name_def Let_def DCTarEncoder_save_def autoSave_callback_def
      DCTarEncoder_dispose_def step_def emit_logged_def)

lemma add_part:
  assumes "has_Tar pf" and "tape e = Some t" and "readable b"
    and "autoSave_due (encoder_base.settings e) c"
    and "\<forall>n < c. \<not> autoSave_due (encoder_base.settings e) n"
    and "DCTarEncoder.frames e \<le> c" and "length t = DCTarEncoder.frames e"
  shows "\<exists>e' t' ps. DCTarEncoder_add pf b e = Inr e' \<and> tape e' = Some t' \<and>
           encoder_base.settings e' = encoder_base.settings e \<and>
           DCTarEncoder.frames e' = (DCTarEncoder.frames e + 1) mod (c + 1) \<and>
           length t' = DCTarEncoder.frames e' \<and>
           saved e' = saved e @ ps \<and>
           length ps = (DCTarEncoder.frames e + 1) div (c + 1) \<and>
           (\<forall>p \<in> set ps. length p = c + 1) \<and>
           (has_download pf \<longrightarrow> map fst (downloads e') = map fst (downloads e) @ ps)"
proof -
  from assms(3) obtain r where r: "read_result b = Some r" by (auto simp: readable_def)
  show ?thesis
  proof (cases "DCTarEncoder.frames e = c")
    case False
    then have lt: "DCTarEncoder.frames e < c" using assms(6) by simp
    then have nd: "\<not> autoSave_due (encoder_base.settings e) (DCTarEncoder.frames e)"
      using assms(5) by blast
    let ?e' = "step (e\<lparr>tape := Some (t @ [(entry_name (fileExtension e) (count e), r)]),
                          count := count e + 1,
                          DCTarEncoder.frames := DCTarEncoder.frames e + 1\<rparr>)"
    have one: "DCTarEncoder_add pf b e = Inr ?e'"
      using r onload_append [OF assms(2) nd, of pf r] by (simp add: DCTarEncoder_add_def)
    have f: "tape ?e' = Some (t @ [(entry_name (fileExtension e) (count e), r)])"
      "encoder_base.settings ?e' = encoder_base.settings e"
      "DCTarEncoder.frames ?e' = DCTarEncoder.frames e + 1"
      "saved ?e' = saved e" "downloads ?e' = downloads e"
      by (simp_all add: step_def emit_logged_def)
    have "DCTarEncoder_add pf b e = Inr ?e' \<and>
          tape ?e' = Some (t @ [(entry_name (fileExtension e) (count e), r)]) \<and>
          encoder_base.settings ?e' = encoder_base.settings e \<and>
          DCTarEncoder.frames ?e' = (DCTarEncoder.frames e + 1) mod (c + 1) \<and>
          length (t @ [(entry_name (fileExtension e) (count e), r)]) = DCTarEncoder.frames ?e' \<and>
          saved ?e' = saved e @ [] \<and>
          length ([] :: tar_file list) = (DCTarEncoder.frames e + 1) div (c + 1) \<and>
          (\<forall>p \<in> set ([] :: tar_file list). length p = c + 1) \<and>
          (has_download pf \<longrightarrow> map fst (downloads ?e') = map fst (downloads e) @ [])"
      using one lt assms(7) f by simp
    then show ?thesis by blast
  next
    case True
    then have due: "autoSave_due (encoder_base.settings e) (DCTarEncoder.frames e)"
      using assms(4) by simp
    let ?p = "t @ [(entry_name (fileExtension e) (count e), r)]"
    from onload_rotate_download [OF assms(1,2) due, of r] obtain e' where
      e': "onload pf r e = Inr e'" "tape e' = Some []" "DCTarEncoder.frames e' = 0"
        "saved e' = saved e @ [?p]" "encoder_base.settings e' = encoder_base.settings e"
        "has_download pf \<longrightarrow> map fst (downloads e') = map fst (downloads e) @ [?p]"
      by blast
    have "DCTarEncoder_add pf b e = Inr e' \<and> tape e' = Some [] \<and>
          encoder_base.settings e' = encoder_base.settings e \<and>
          DCTarEncoder.frames e' = (DCTarEncoder.frames e + 1) mod (c + 1) \<and>
          length ([] :: tar_file) = DCTarEncoder.frames e' \<and>
          saved e' = saved e @ [?p] \<and>
          length [?p] = (DCTarEncoder.frames e + 1) div (c + 1) \<and>
          (\<forall>p \<in> set [?p]. length p = c + 1) \<and>
          (has_download pf \<longrightarrow> map fst (downloads e') = map fst (downloads e) @ [?p])"
      using e' r True assms(7) by (simp add: DCTarEncoder_add_def)
    then show ?thesis by blast
  qed
qed

lemma adds_parts:
  assumes "has_Tar pf" and "\<forall>b \<in> set bs. readable b" and "tape e = Some t"
    and "autoSave_due (encoder_base.settings e) c"
    and "\<forall>n < c. \<not> autoSave_due (encoder_base.settings e) n"
    and "DCTarEncoder.frames e \<le> c" and "length t = DCTarEncoder.frames e"
  shows "\<exists>e' t' ps. adds pf bs e = Inr e' \<and> tape e' = Some t' \<and>
           length t' = (DCTarEncoder.frames e + length bs) mod (c + 1) \<and>
           saved e' = saved e @ ps \<and>
           length ps = (DCTarEncoder.frames e + length bs) div (c + 1) \<and>
           (\<forall>p \<in> set ps. length p = c + 1) \<and>
           (has_download pf \<longrightarrow> map fst (downloads e') = map fst (downloads e) @ ps)"
  using assms(2-)
proof (induction bs arbitrary: e t)
  case Nil
  then show ?case by simp
next
  case (Cons b bs)
  have rb: "readable b" and rest: "\<forall>b \<in> set bs. readable b" using Cons.prems(1) by simp_all
  from add_part [OF assms(1) Cons.prems(2) rb Cons.prems(3-6)] obtain e1 t1 ps1 where
    one: "DCTarEncoder_add pf b e = Inr e1" "tape e1 = Some t1"
      "encoder_base.settings e1 = encoder_base.settings e"
      "DCTarEncoder.frames e1 = (DCTarEncoder.frames e + 1) mod (c + 1)"
      "length t1 = DCTarEncoder.frames e1"
      "saved e1 = saved e @ ps1"
      "length ps1 = (DCTarEncoder.frames e + 1) div (c + 1)"
      "\<forall>p \<in> set ps1. length p = c + 1"
      "has_download pf \<longrightarrow> map fst (downloads e1) = map fst (downloads e) @ ps1"
    by blast
  have due1: "autoSave_due (encoder_base.settings e1) c"
    and nd1: "\<forall>n < c. \<not> autoSave_due (encoder_base.settings e1) n"
    using Cons.prems(3,4) one(3) by simp_all
  have fr1: "DCTarEncoder.frames e1 \<le> c" unfolding one(4) by (simp add: less_Suc_eq_le [symmetric])
  from Cons.IH [OF rest one(2) due1 nd1 fr1 one(5)] obtain e' t' ps where
    fin: "adds pf bs e1 = Inr e'" "tape e' = Some t'"
      "length t' = (DCTarEncoder.frames e1 + length bs) mod (c + 1)"
      "saved e' = saved e1 @ ps"
      "length ps = (DCTarEncoder.frames e1 + length bs) div (c + 1)"
      "\<forall>p \<in> set ps. length p = c + 1"
      "has_download pf \<longrightarrow> map fst (downloads e') = map fst (downloads e1) @ ps"
    by blast
  have m: "((DCTarEncoder.frames e + 1) mod (c + 1) + length bs) mod (c + 1) =
           (DCTarEncoder.frames e + length (b # bs)) mod (c + 1)"
    by (simp add: mod_add_left_eq)
  have d: "(DCTarEncoder.frames e + 1) div (c + 1) +
             ((DCTarEncoder.frames e + 1) mod (c + 1) + length bs) div (c + 1) =
           (DCTarEncoder.frames e + length (b # bs)) div (c + 1)"
    using div_split [of "c + 1" "DCTarEncoder.frames e + 1" "length bs"] by simp
  have "adds pf (b # bs) e = Inr e' \<and> tape e' = Some t' \<and>
        length t' = (DCTarEncoder.frames e + length (b # bs)) mod (c + 1) \<and>
        saved e' = saved e @ (ps1 @ ps) \<and>
        length (ps1 @ ps) = (DCTarEncoder.frames e + length (b # bs)) div (c + 1) \<and>
        (\<forall>p \<in> set (ps1 @ ps). length p = c + 1) \<and>
        (has_download pf \<longrightarrow> map fst (downloads e') = map fst (downloads e) @ (ps1 @ ps))"
    using one(1,6,7,8,9) fin(1,2,4,5,6,7) fin(3) [unfolded one(4) m] d [symmetric]
    by (auto simp: one(4))
  then show ?case by blast
qed

lemma adds_below:
  assumes "tape e = Some t" and "\<forall>b \<in> set bs. readable b"
    and "\<forall>n < DCTarEncoder.frames e + length bs. \<not> autoSave_due (encoder_base.settings e) n"
  shows "\<exists>e' t'. adds pf bs e = Inr e' \<and> tape e' = Some t' \<and> saved e' = saved e \<and>
           downloads e' = downloads e \<and> length t' = length t + length bs"
  using assms
proof (induction bs arbitrary: e t)
  case Nil
  then show ?case by simp
next
  case (Cons b bs)
  from Cons.prems(2) obtain r where r: "read_result b = Some r" by (auto simp: readable_def)
  have nd: "\<not> autoSave_due (encoder_base.settings e) (DCTarEncoder.frames e)"
    using Cons.prems(3) by simp
  let ?e1 = "step (e\<lparr>tape := Some (t @ [(entry_name (fileExtension e) (count e), r)]),
                        count := count e + 1,
                        DCTarEncoder.frames := DCTarEncoder.frames e + 1\<rparr>)"
  have one: "DCTarEncoder_add pf b e = Inr ?e1"
    using r onload_append [OF Cons.prems(1) nd, of pf r] by (simp add: DCTarEncoder_add_def)
  have f: "tape ?e1 = Some (t @ [(entry_name (fileExtension e) (count e), r)])"
    "encoder_base.settings ?e1 = encoder_base.settings e"
    "DCTarEncoder.frames ?e1 = DCTarEncoder.frames e + 1"
    "saved ?e1 = saved e" "downloads ?e1 = downloads e"
    by (simp_all add: step_def emit_logged_def)
  have rest: "\<forall>b \<in> set bs. readable b" using Cons.prems(2) by simp
  have nd1: "\<forall>n < DCTarEncoder.frames ?e1 + length bs. \<not> autoSave_due (encoder_base.settings ?e1) n"
    using Cons.prems(3) f by simp
  from Cons.IH [OF f(1) rest nd1] obtain e' t' where
    "adds pf bs ?e1 = Inr e'" "tape e' = Some t'" "saved e' = saved ?e1"
    "downloads e' = downloads ?e1"
    "length t' = length (t @ [(entry_name (fileExtension e) (count e), r)]) + length bs"
    by blast
  then show ?case using one f by simp
qed

lemma stop_then_save_downloaded:
  assumes "DCapture.encoder s = Some enc" and "archive_of enc = Some e" and "tape e = Some t"
    and "pending s = []"
  shows "\<exists>s'. save True (run_job (stop Nothing s)) = (None, s') \<and> artifacts s' = saved e @ [t] \<and>
           downloaded s' = map fst (downloads e)"
proof -
  have stop: "archive_of (encoder_stop enc) = Some (e\<lparr>state := ''finished''\<rparr>)"
    using assms(2) by (cases enc) (simp_all add: archive_of_def encoder_stop_def)
  have job: "DCapture.encoder (run_job (stop Nothing s)) = Some (encoder_stop enc)"
    using assms(1,4) by (simp add: run_job_def stop_def stop_job_def Let_def)
  obtain e' where sv: "encoder_save True (encoder_stop enc) = Inr e'"
    and a: "archive_of e' = Some (e\<lparr>state := ''finished'', saved := saved e @ [t]\<rparr>)"
    using stop assms(3)
    by (cases "encoder_stop enc")
      (auto simp: archive_of_def encoder_save_def DCTarEncoder_save_def caller_callback_def)
  show ?thesis
    using job sv a by (simp add: save_def artifacts_def downloaded_def)
qed

lemma archive_recording_downloaded:
  assumes "format st = ''png'' \<or> format st = ''jpg'' \<or> format st = ''jpeg''"
    and "frameLimit st \<le> 0" and "timeLimit st \<le> 0"
    and "\<forall>c \<in> set cs. toBlob (snd c) = Gives (blob_of (snd c))"
    and "adds pf (map (\<lambda>c. blob_of (snd c)) cs)
           (DCTarEncoder_start pf
              (attach (new_archive_encoder (if format st = ''png'' then ''.png'' else ''.jpg'') st)))
         = Inr e"
    and "tape e = Some t"
  shows "\<exists>s. recording pf st t0 cs = Inr s \<and> artifacts s = saved e @ [t] \<and>
           downloaded s = map fst (downloads e)"
proof -
  from new_archive_session [OF assms(1), of pf] obtain s0 enc where
    s0: "new_DCapture pf st = Inr s0" "DCapture.encoder s0 = Some enc"
      "archive_of enc = Some (attach (new_archive_encoder
         (if format st = ''png'' then ''.png'' else ''.jpg'') st))"
    by blast
  from start_archive_session [OF s0, of t0] obtain s1 enc1 where
    s1: "start pf t0 s0 = (None, s1)" "\<not> stopped s1" "DCapture.settings s1 = st"
      "pending s1 = []" "DCapture.encoder s1 = Some enc1"
      "archive_of enc1 = Some (DCTarEncoder_start pf (attach (new_archive_encoder
         (if format st = ''png'' then ''.png'' else ''.jpg'') st)))"
    by blast
  have "\<exists>s' enc'. captures pf cs s1 = (None, s') \<and> \<not> stopped s' \<and>
           DCapture.encoder s' = Some enc' \<and> archive_of enc' = Some e \<and>
           pending s' = pending s1"
    using s1 assms by (intro captures_archive) simp_all
  then obtain s2 enc2 where
    s2: "captures pf cs s1 = (None, s2)" "DCapture.encoder s2 = Some enc2"
      "archive_of enc2 = Some e" "pending s2 = []"
    using s1(4) by auto
  from stop_then_save_downloaded [OF s2(2,3) assms(6) s2(4)] obtain s3 where
    "save True (run_job (stop Nothing s2)) = (None, s3)" "artifacts s3 = saved e @ [t]"
    "downloaded s3 = map fst (downloads e)"
    by blast
  then show ?thesis
    using s0(1) s1(1) s2(1) by (simp add: recording_def)
qed

lemma started_attached_downloads:
  assumes "has_Tar pf"
  shows "downloads (DCTarEncoder_start pf (attach (new_archive_encoder ext st))) = []"
  using assms
  by (simp add: DCTarEncoder_start_def DCTarEncoder_dispose_def new_archive_encoder_def
      new_DCTarEncoder_def attach_def)

lemma archive_recording_parts:
  assumes "format st = ''png'' \<or> format st = ''jpg'' \<or> format st = ''jpeg''"
    and "has_Tar pf" and "frameLimit st \<le> 0" and "timeLimit st \<le> 0"
    and "\<forall>c \<in> set cs. convertible (snd c)"
  shows "\<exists>s ps (t :: tar_file). recording pf st t0 cs = Inr s \<and> artifacts s = ps @ [t] \<and>
           ((\<forall>n < length cs. \<not> autoSave_due st n) \<longrightarrow> ps = [] \<and> length t = length cs) \<and>
           (\<forall>c. autoSave_due st c \<and> (\<forall>n < c. \<not> autoSave_due st n) \<longrightarrow>
              length ps = length cs div (c + 1) \<and> (\<forall>p \<in> set ps. length p = c + 1) \<and>
              length t = length cs mod (c + 1) \<and>
              (has_download pf \<longrightarrow> downloaded s = ps))"
proof -
  let ?ext = "if format st = ''png'' then ''.png'' else ''.jpg''"
  let ?e0 = "DCTarEncoder_start pf (attach (new_archive_encoder ?ext st))"
  let ?bs = "map (\<lambda>c. blob_of (snd c)) cs"
  note f = started_attached_fields [OF assms(2), of ?ext st]
    started_attached_downloads [OF assms(2), of ?ext st]
  have gives: "\<forall>c \<in> set cs. toBlob (snd c) = Gives (blob_of (snd c))"
    and rd: "\<forall>b \<in> set ?bs. readable b"
    using assms(5) convertible_gives by auto
  have init: "map fst (concat (saved ?e0) @ []) = numbered (fileExtension ?e0) 0 (count ?e0)"
    by (simp add: f numbered_def)
  from adds_names [OF assms(2) f(1) init, of ?bs] obtain e t where
    e: "adds pf ?bs ?e0 = Inr e" "tape e = Some t"
    by blast
  from archive_recording_downloaded [OF assms(1,3,4) gives e, of t0] obtain s where
    s: "recording pf st t0 cs = Inr s" "artifacts s = saved e @ [t]"
      "downloaded s = map fst (downloads e)"
    by blast
  have none: "saved e = [] \<and> length t = length cs" if nd: "\<forall>n < length cs. \<not> autoSave_due st n"
  proof -
    have "\<forall>n < DCTarEncoder.frames ?e0 + length ?bs. \<not> autoSave_due (encoder_base.settings ?e0) n"
      using nd by (simp add: f)
    from adds_below [OF f(1) rd this, of pf] e show ?thesis by (simp add: f)
  qed
  have some: "length (saved e) = length cs div (c + 1) \<and> (\<forall>p \<in> set (saved e). length p = c + 1) \<and>
              length t = length cs mod (c + 1) \<and> (has_download pf \<longrightarrow> downloaded s = saved e)"
    if due: "autoSave_due st c" and nd: "\<forall>n < c. \<not> autoSave_due st n" for c
  proof -
    have due0: "autoSave_due (encoder_base.settings ?e0) c"
      and nd0: "\<forall>n < c. \<not> autoSave_due (encoder_base.settings ?e0) n"
      using due nd by (simp_all add: f)
    have fr: "DCTarEncoder.frames ?e0 \<le> c" and len: "length ([] :: tar_file) = DCTarEncoder.frames ?e0"
      by (simp_all add: f)
    from adds_parts [OF assms(2) rd f(1) due0 nd0 fr len] e s(3) show ?thesis
      by (auto simp: f)
  qed
  show ?thesis using s(1,2) none some by blast
qed

lemma parts_bound:
  fixes f a :: rat
  assumes "0 < f" and "0 < a" and "0 < K" and "f * a < of_nat c + 1"
  shows "int (K div (c + 1) + 1) \<le> \<lceil>of_nat K / f / a\<rceil>"
proof -
  let ?m = "K div (c + 1)"
  have fa: "0 < f * a" using assms by simp
  have "of_nat ?m * (f * a) < (of_nat K :: rat)"
  proof (cases "?m = 0")
    case True
    then show ?thesis using assms(3) by simp
  next
    case False
    then have mpos: "(0::rat) < of_nat ?m" by simp
    have "of_nat ?m * (f * a) < (of_nat ?m :: rat) * (of_nat c + 1)"
      using assms(4) mpos by (simp only: mult_less_cancel_left_pos)
    also have "\<dots> = of_nat (?m * (c + 1))" by (simp only: of_nat_mult of_nat_add of_nat_1)
    also have "\<dots> \<le> (of_nat K :: rat)"
      unfolding of_nat_le_iff by (rule div_times_less_eq_dividend)
    finally show ?thesis .
  qed
  then have "(of_nat ?m :: rat) < of_nat K / (f * a)"
    using fa by (simp add: pos_less_divide_eq)
  then have "(of_int (int ?m) :: rat) < of_nat K / f / a"
    by (simp add: divide_divide_eq_left)
  then have "int ?m < \<lceil>of_nat K / f / a\<rceil>" by (simp only: less_ceiling_iff)
  then show ?thesis by simp
qed

lemma due_count_bound:
  assumes f: "double (settings.framerate st) = Signed False (Finite f)" "0 < f"
    and a: "double (autoSaveTime st) = Signed False (Finite a)" "0 < a"
    and K: "K < 2 ^ 53" and due: "autoSave_due st c" and c: "c < K"
  shows "int (K div (c + 1) + 1) \<le> \<lceil>of_nat K / f / a\<rceil>"
proof -
  have c53: "c + 1 < 2 ^ 53" and c': "c < 2 ^ 53" using c K by simp_all
  have ge: "magnitude_le (Finite a) (round_magnitude (of_nat c / f))"
    using due autoSave_due_finite [OF f a c'] by simp
  have "f * a < of_nat c + 1"
    using double_finite_representable(1) [OF f(1)] f(2)
      double_finite_representable(1) [OF a(1)] a(2) c53 ge
    by (rule due_count_above_product)
  with f(2) a(2) show ?thesis using c by (intro parts_bound) simp_all
qed

text \<open>
  Claim C3, as the code has it. A session with an archive format, the archive writer
  there, no limit configured and every frame converted and read, is started, fed
  \<open>K \<ge> 1\<close> frames, stopped and saved with a callback. It yields at least one artifact;
  exactly one, holding the \<open>K\<close> frames, when no auto-save interval is set or, more
  generally, when the auto-save test holds at no frame count below \<open>K\<close>. When \<open>c\<close> is the
  least frame count at which the test holds and \<^verbatim>\<open>download\<close> is there, it yields
  \<open>K div (c + 1) + 1\<close> artifacts: each but the last holds \<open>c + 1\<close> frames and was passed
  to \<^verbatim>\<open>download\<close> (a part is handed over by the frame that finds \<open>c\<close> frames already in
  it), and the last, handed to the callback of \<^verbatim>\<open>save\<close>, holds the remaining
  \<open>K mod (c + 1)\<close> frames, none when \<open>c + 1\<close> divides \<open>K\<close>. When the rate and the interval
  are positive finite numbers \<open>f\<close> and \<open>a\<close> and \<open>K\<close> is below \<^verbatim>\<open>2^53\<close>, the number of
  artifacts is at most \<open>\<lceil>(K / f) / a\<rceil>\<close>.
\<close>

theorem archive_recording_artifacts:
  assumes "format st = ''png'' \<or> format st = ''jpg'' \<or> format st = ''jpeg''"
    and "has_Tar pf" and "frameLimit st \<le> 0" and "timeLimit st \<le> 0"
    and "\<forall>c \<in> set cs. convertible (snd c)" and "cs \<noteq> []"
  shows "\<exists>s. recording pf st t0 cs = Inr s \<and> 1 \<le> length (artifacts s) \<and>
           (autoSaveTime st \<le> 0 \<longrightarrow>
              length (artifacts s) = 1 \<and> length (last (artifacts s)) = length cs) \<and>
           ((\<forall>n < length cs. \<not> autoSave_due st n) \<longrightarrow>
              length (artifacts s) = 1 \<and> length (last (artifacts s)) = length cs) \<and>
           (\<forall>c. has_download pf \<and> autoSave_due st c \<and> (\<forall>n < c. \<not> autoSave_due st n) \<longrightarrow>
              length (artifacts s) = length cs div (c + 1) + 1 \<and>
              (\<forall>p \<in> set (butlast (artifacts s)). length p = c + 1) \<and>
              length (last (artifacts s)) = length cs mod (c + 1) \<and>
              downloaded s = butlast (artifacts s)) \<and>
           (\<forall>f a. double (settings.framerate st) = Signed False (Finite f) \<and> 0 < f \<and>
                   double (autoSaveTime st) = Signed False (Finite a) \<and> 0 < a \<and>
                   length cs < 2 ^ 53 \<longrightarrow>
              int (length (artifacts s)) \<le> \<lceil>of_nat (length cs) / f / a\<rceil>)"
proof -
  from archive_recording_parts [OF assms(1-5), of t0] obtain s ps and t :: tar_file where
    s: "recording pf st t0 cs = Inr s" "artifacts s = ps @ [t]"
    and none: "(\<forall>n < length cs. \<not> autoSave_due st n) \<longrightarrow> ps = [] \<and> length t = length cs"
    and some: "\<forall>c. autoSave_due st c \<and> (\<forall>n < c. \<not> autoSave_due st n) \<longrightarrow>
              length ps = length cs div (c + 1) \<and> (\<forall>p \<in> set ps. length p = c + 1) \<and>
              length t = length cs mod (c + 1) \<and>
              (has_download pf \<longrightarrow> downloaded s = ps)"
    by blast
  have K: "0 < length cs" using assms(6) by simp
  have off: "length (artifacts s) = 1 \<and> length (last (artifacts s)) = length cs"
    if "autoSaveTime st \<le> 0"
    using none not_due_without_interval [OF that] s(2) by simp
  have bound: "int (length (artifacts s)) \<le> \<lceil>of_nat (length cs) / f / a\<rceil>"
    if h: "double (settings.framerate st) = Signed False (Finite f)" "0 < f"
      "double (autoSaveTime st) = Signed False (Finite a)" "0 < a" "length cs < 2 ^ 53"
    for f a
  proof (cases "\<forall>n < length cs. \<not> autoSave_due st n")
    case True
    with none have one: "length (artifacts s) = 1" using s(2) by simp
    have "(0::rat) < of_nat (length cs) / f / a" using K h(2,4) by simp
    then have "0 < \<lceil>of_nat (length cs) / f / a\<rceil>" by (simp only: zero_less_ceiling)
    then show ?thesis using one by simp
  next
    case False
    then obtain n where n: "n < length cs" "autoSave_due st n" by blast
    define c where "c = (LEAST n. autoSave_due st n)"
    have due: "autoSave_due st c" unfolding c_def using n(2) by (rule LeastI)
    have least: "\<forall>m < c. \<not> autoSave_due st m" unfolding c_def using not_less_Least by blast
    have "c \<le> n" unfolding c_def using n(2) by (rule Least_le)
    then have lt: "c < length cs" using n(1) by simp
    from some due least have "length ps = length cs div (c + 1)" by blast
    then have "length (artifacts s) = length cs div (c + 1) + 1" using s(2) by simp
    then show ?thesis using due_count_bound [OF h due lt] by simp
  qed
  show ?thesis
    using s none some off bound by (auto simp: butlast_append)
qed

lemma quotient_below_interval:
  assumes "round_magnitude a = Finite a" and "0 < x"
    and "x < a - 2 powi (max (exponent a) (- 1022) - 52) / 2"
  shows "\<not> magnitude_le (Finite a) (round_magnitude x)"
proof
  assume ge: "magnitude_le (Finite a) (round_magnitude x)"
  have "(0::rat) < 2 powi (max (exponent a) (- 1022) - 52) / 2" by simp
  with assms(3) have "x < a" by linarith
  from round_magnitude_below [OF assms(2) this assms(1) ge] assms(3) show False by simp
qed

lemma double_7_25: "double (7 / 25) = Signed False (Finite (1261007895663739 / 4503599627370496))"
proof -
  have "round_magnitude (7 / 25) = Finite (1261007895663739 / 4503599627370496)"
    by (rule round_magnitude_at [of "- 2" _ 5044031582654956])
      (simp_all add: power_int_minus)
  then show ?thesis by (simp add: double_def)
qed

lemma double_25: "double 25 = Signed False (Finite 25)"
  using double_of_nat [of 25] by simp

lemma exponent_25: "exponent 25 = 4"
  by (rule exponent_unique) simp_all

lemma rate_7_25_interval_25:
  assumes "settings.framerate st = 7 / 25" and "autoSaveTime st = 25"
  shows "\<forall>n < 8. \<not> autoSave_due st n" and "autoSave_due st 8"
proof -
  let ?f = "1261007895663739 / 4503599627370496 :: rat"
  have f: "double (settings.framerate st) = Signed False (Finite ?f)" "0 < ?f"
    and a: "double (autoSaveTime st) = Signed False (Finite 25)" "(0::rat) < 25"
    by (simp_all add: assms double_7_25 double_25)
  have r25: "round_magnitude 25 = Finite 25" using round_magnitude_of_nat [of 25] by simp
  show "\<forall>n < 8. \<not> autoSave_due st n"
  proof (intro allI impI)
    fix n :: nat
    assume n: "n < 8"
    show "\<not> autoSave_due st n"
    proof (cases "n = 0")
      case True
      then show ?thesis by (simp add: autoSave_never_due_at_zero)
    next
      case False
      have n53: "n < 2 ^ 53" using n by simp
      have "(of_nat n :: rat) \<le> 7" using n by simp
      then have "of_nat n / ?f \<le> 7 / ?f" by (intro divide_right_mono) simp_all
      also have "7 / ?f < 25 - 2 powi (max (exponent 25) (- 1022) - 52) / 2"
        by (simp add: exponent_25 power_int_minus)
      finally have below: "of_nat n / ?f < 25 - 2 powi (max (exponent 25) (- 1022) - 52) / 2" .
      have pos: "0 < of_nat n / ?f" using False by simp
      show ?thesis
        unfolding autoSave_due_finite [OF f a n53]
        using r25 pos below by (rule quotient_below_interval)
    qed
  qed
  have "round_magnitude (8 / ?f) = Finite (2010535547933257 / 70368744177664)"
    by (rule round_magnitude_at [of 4 _ 8042142191733028]) (simp_all add: power_int_minus)
  then show "autoSave_due st 8"
    using autoSave_due_finite [OF f a, of 8] by simp
qed

lemma two_lengths:
  assumes "length xs = 2" and "\<forall>p \<in> set (butlast xs). length p = m" and "length (last xs) = k"
  shows "map length xs = [m, k]"
proof -
  from assms(1) obtain x y where "xs = [x, y]"
    by (auto simp: length_Suc_conv numeral_2_eq_2)
  with assms(2,3) show ?thesis by simp
qed

lemma one_length:
  assumes "length xs = 1" and "length (last xs) = k"
  shows "map length xs = [k]"
proof -
  from assms(1) obtain x where "xs = [x]" by (auto simp: length_Suc_conv)
  with assms(2) show ?thesis by simp
qed

text \<open>
  At rate 0.28 with an interval of 25 seconds, \<^verbatim>\<open>7 / 0.28\<close> is 24.999999999999996 and
  the test first holds at frame count 8: eight frames yield one artifact, and nine frames
  yield a part of nine frames, passed to \<^verbatim>\<open>download\<close>, and an empty final archive. With
  no interval, three frames yield one artifact.
\<close>

theorem archive_recording_artifacts_witness:
  "(\<exists>s. recording \<lparr>has_Whammy = False, has_MediaRecorder = False, has_GIF = False,
                     has_Tar = True, has_download = True\<rparr>
            (default_settings\<lparr>format := ''png'', settings.framerate := 7 / 25, autoSaveTime := 25\<rparr>) 0
            (replicate 8 (0, Canvas 4 3 (Gives (Blob (Some [1]))))) = Inr s \<and>
         map length (artifacts s) = [8]) \<and>
   (\<exists>s. recording \<lparr>has_Whammy = False, has_MediaRecorder = False, has_GIF = False,
                     has_Tar = True, has_download = True\<rparr>
            (default_settings\<lparr>format := ''png'', settings.framerate := 7 / 25, autoSaveTime := 25\<rparr>) 0
            (replicate 9 (0, Canvas 4 3 (Gives (Blob (Some [1]))))) = Inr s \<and>
         map length (artifacts s) = [9, 0] \<and> downloaded s = butlast (artifacts s) \<and>
         int (length (artifacts s)) \<le> \<lceil>9 / (1261007895663739 / 4503599627370496) / (25::rat)\<rceil>) \<and>
   (\<exists>s. recording \<lparr>has_Whammy = False, has_MediaRecorder = False, has_GIF = False,
                     has_Tar = True, has_download = False\<rparr>
            (default_settings\<lparr>format := ''jpg'', settings.framerate := 10\<rparr>) 0
            (replicate 3 (0, Canvas 4 3 (Gives (Blob (Some [1]))))) = Inr s \<and>
         length (artifacts s) = 1)"
proof -
  let ?pf = "\<lparr>has_Whammy = False, has_MediaRecorder = False, has_GIF = False,
              has_Tar = True, has_download = True\<rparr>"
  let ?pf' = "\<lparr>has_Whammy = False, has_MediaRecorder = False, has_GIF = False,
               has_Tar = True, has_download = False\<rparr>"
  let ?st = "default_settings\<lparr>format := ''png'', settings.framerate := 7 / 25, autoSaveTime := 25\<rparr>"
  let ?st' = "default_settings\<lparr>format := ''jpg'', settings.framerate := 10\<rparr>"
  let ?c = "(0::int, Canvas 4 3 (Gives (Blob (Some [1]))))"
  have h: "format ?st = ''png'' \<or> format ?st = ''jpg'' \<or> format ?st = ''jpeg''"
    "has_Tar ?pf" "frameLimit ?st \<le> 0" "timeLimit ?st \<le> 0"
    and h': "format ?st' = ''png'' \<or> format ?st' = ''jpg'' \<or> format ?st' = ''jpeg''"
    "has_Tar ?pf'" "frameLimit ?st' \<le> 0" "timeLimit ?st' \<le> 0"
    and cv: "\<forall>c \<in> set (replicate n ?c). convertible (snd c)" for n
    by (simp_all add: default_settings_def convertible_def readable_def)
  have nd: "\<forall>n < 8. \<not> autoSave_due ?st n" and due: "autoSave_due ?st 8"
    by (rule rate_7_25_interval_25; simp add: default_settings_def)+
  have d: "double (settings.framerate ?st) = Signed False (Finite (1261007895663739 / 4503599627370496))"
    "double (autoSaveTime ?st) = Signed False (Finite 25)"
    by (simp_all add: double_7_25 double_25 default_settings_def)
  from archive_recording_artifacts [OF h cv, of 8 0] nd obtain s8 where
    s8: "recording ?pf ?st 0 (replicate 8 ?c) = Inr s8"
      "length (artifacts s8) = 1" "length (last (artifacts s8)) = 8"
    by auto
  from archive_recording_artifacts [OF h cv, of 9 0] nd due d obtain s9 where
    s9: "recording ?pf ?st 0 (replicate 9 ?c) = Inr s9"
      "length (artifacts s9) = 9 div (8 + 1) + 1"
      "\<forall>p \<in> set (butlast (artifacts s9)). length p = 8 + 1"
      "length (last (artifacts s9)) = 9 mod (8 + 1)"
      "downloaded s9 = butlast (artifacts s9)"
      "int (length (artifacts s9)) \<le> \<lceil>of_nat 9 / (1261007895663739 / 4503599627370496) / (25::rat)\<rceil>"
    by (auto simp del: of_nat_numeral)
  from archive_recording_artifacts [OF h' cv, of 3 0] obtain s3 where
    s3: "recording ?pf' ?st' 0 (replicate 3 ?c) = Inr s3" "length (artifacts s3) = 1"
    by (auto simp: default_settings_def)
  have l9: "map length (artifacts s9) = [9, 0]"
    using s9(2,3,4) by (intro two_lengths) simp_all
  have l8: "map length (artifacts s8) = [8]"
    using s8(2,3) by (rule one_length)
  show ?thesis
    using s8(1) l8 s9(1) l9 s9(5,6) s3 by auto
qed

text \<open>
  Claim C3 as stated, with exactly \<open>\<lceil>(K / rate) / interval\<rceil>\<close> artifacts, fails: three
  frames at rate 1 with an interval of one second yield two artifacts, and the formula
  gives three.
\<close>

theorem three_frames_two_artifacts:
  "artifact_count
     (recording \<lparr>has_Whammy = False, has_MediaRecorder = False, has_GIF = False,
                 has_Tar = True, has_download = True\<rparr>
        (default_settings\<lparr>format := ''png'', settings.framerate := 1, autoSaveTime := 1\<rparr>) 0
        [(0, Canvas 4 3 (Gives (Blob (Some [1])))), (1000, Canvas 4 3 (Gives (Blob (Some [2])))),
         (2000, Canvas 4 3 (Gives (Blob (Some [3]))))]) = Some 2 \<and>
   \<lceil>of_nat (length [(0::int, Canvas 4 3 (Gives (Blob (Some [1])))),
                      (1000, Canvas 4 3 (Gives (Blob (Some [2])))),
                      (2000, Canvas 4 3 (Gives (Blob (Some [3]))))]) /
      settings.framerate (default_settings\<lparr>format := ''png'', settings.framerate := 1, autoSaveTime := 1\<rparr>) /
      autoSaveTime (default_settings\<lparr>format := ''png'', settings.framerate := 1, autoSaveTime := 1\<rparr>)\<rceil>
     = (3::int)"
proof -
  let ?pf = "\<lparr>has_Whammy = False, has_MediaRecorder = False, has_GIF = False,
              has_Tar = True, has_download = True\<rparr>"
  let ?st = "default_settings\<lparr>format := ''png'', settings.framerate := 1, autoSaveTime := 1\<rparr>"
  let ?cs = "[(0::int, Canvas 4 3 (Gives (Blob (Some [1])))),
              (1000, Canvas 4 3 (Gives (Blob (Some [2])))),
              (2000, Canvas 4 3 (Gives (Blob (Some [3]))))]"
  have h: "format ?st = ''png'' \<or> format ?st = ''jpg'' \<or> format ?st = ''jpeg''"
    "has_Tar ?pf" "frameLimit ?st \<le> 0" "timeLimit ?st \<le> 0"
    "\<forall>c \<in> set ?cs. convertible (snd c)"
    by (simp_all add: default_settings_def convertible_def readable_def)
  have due: "autoSave_due ?st (Suc 0)" by (rule due_at_one) (simp_all add: default_settings_def)
  have nd: "\<forall>n < Suc 0. \<not> autoSave_due ?st n" by (simp add: autoSave_never_due_at_zero)
  from archive_recording_parts [OF h, of 0] obtain s ps and t :: tar_file where
    s: "recording ?pf ?st 0 ?cs = Inr s" "artifacts s = ps @ [t]"
      "\<forall>c. autoSave_due ?st c \<and> (\<forall>n < c. \<not> autoSave_due ?st n) \<longrightarrow>
         length ps = length ?cs div (c + 1) \<and> (\<forall>p \<in> set ps. length p = c + 1) \<and>
         length t = length ?cs mod (c + 1) \<and>
         (has_download ?pf \<longrightarrow> downloaded s = ps)"
    by blast
  have l3: "length ?cs = 3" by simp
  have c2: "Suc 0 + 1 = (2::nat)" by simp
  have d: "(3::nat) div 2 = 1" by simp
  from s(3) due nd have "length ps = length ?cs div (Suc 0 + 1)" by blast
  then have "length ps = 1" unfolding l3 c2 d .
  then have "length (artifacts s) = 2" using s(2) by simp
  then have "artifact_count (recording ?pf ?st 0 ?cs) = Some 2"
    using s(1) by (simp add: artifact_count_def)
  moreover have "\<lceil>of_nat (length ?cs) / settings.framerate ?st / autoSaveTime ?st\<rceil> = (3::int)"
    by (simp add: default_settings_def)
  ultimately show ?thesis by blast
qed

text \<open>
  Claim C5. After any sequence of \<^verbatim>\<open>add\<close> calls on a started archive encoder, the
  counter is the number of blobs that were read, and every archive (each one handed over
  and the tape held) holds the names of consecutive counter values, starting at the
  number of entries in the archives before it. The numbers read off consecutive names
  are consecutive and strictly increasing; a padded number has at least six characters,
  exactly six below a million, and reads back as the number. A PNG recording of three
  frames of one size, with no interval and no limit, yields one archive with the entries
  \<^verbatim>\<open>000000.png\<close>, \<^verbatim>\<open>000001.png\<close>, \<^verbatim>\<open>000002.png\<close>, holding the three frames in order.
\<close>

theorem archive_entries_numbered:
  assumes "has_Tar pf"
  shows "(\<exists>e t. adds pf bs (DCTarEncoder_start pf (new_archive_encoder ext st)) = Inr e \<and>
                tape e = Some t \<and> count e = length (filter readable bs) \<and>
                (\<forall>i < length (archives e).
                    map fst (archives e ! i) =
                      numbered ext (length (concat (take i (archives e))))
                        (length (archives e ! i)))) \<and>
         map (entry_number ext) (numbered ext c n) = [c ..< c + n] \<and>
         sorted_wrt (<) (map (entry_number ext) (numbered ext c n)) \<and>
         6 \<le> length (pad k) \<and> (k < 1000000 \<longrightarrow> length (pad k) = 6) \<and>
         nat_of_string (pad k) = k \<and>
         (format st = ''png'' \<and> autoSaveTime st \<le> 0 \<and> frameLimit st \<le> 0 \<and> timeLimit st \<le> 0 \<longrightarrow>
            (\<exists>s. recording pf st t0
                    [(t1, Canvas w h (Gives (Blob (Some b1)))),
                     (t2, Canvas w h (Gives (Blob (Some b2)))),
                     (t3, Canvas w h (Gives (Blob (Some b3))))] = Inr s \<and>
                  artifacts s = [[(''000000.png'', b1), (''000001.png'', b2), (''000002.png'', b3)]]))"
proof -
  let ?e0 = "DCTarEncoder_start pf (new_archive_encoder ext st)"
  note f = started_archive_fields [OF assms, of ext st]
  have init: "map fst (concat (saved ?e0) @ []) = numbered (fileExtension ?e0) 0 (count ?e0)"
    by (simp add: f numbered_def)
  from adds_names [OF assms f(1) init, of bs] obtain e t where
    e: "adds pf bs ?e0 = Inr e" "tape e = Some t"
      "map fst (concat (saved e) @ t) = numbered ext 0 (count e)"
      "count e = length (filter readable bs)"
    by (auto simp: f)
  have names: "map fst (concat (archives e)) = numbered ext 0 (count e)"
    using e by (simp add: archives_with_tape)
  have parts: "\<forall>i < length (archives e).
                 map fst (archives e ! i) =
                   numbered ext (length (concat (take i (archives e)))) (length (archives e ! i))"
    using part_names [OF names] by blast
  have first: "\<exists>e t. adds pf bs ?e0 = Inr e \<and> tape e = Some t \<and>
                count e = length (filter readable bs) \<and>
                (\<forall>i < length (archives e).
                    map fst (archives e ! i) =
                      numbered ext (length (concat (take i (archives e))))
                        (length (archives e ! i)))"
    using e(1,2,4) parts by blast
  have nums: "map (entry_number ext) (numbered ext c n) = [c ..< c + n]"
    by (rule entry_numbers_numbered)
  have incr: "sorted_wrt (<) (map (entry_number ext) (numbered ext c n))"
    unfolding nums by simp
  have scen: "\<exists>s. recording pf st t0
                    [(t1, Canvas w h (Gives (Blob (Some b1)))),
                     (t2, Canvas w h (Gives (Blob (Some b2)))),
                     (t3, Canvas w h (Gives (Blob (Some b3))))] = Inr s \<and>
                  artifacts s = [[(''000000.png'', b1), (''000001.png'', b2), (''000002.png'', b3)]]"
    if "format st = ''png''" "autoSaveTime st \<le> 0" "frameLimit st \<le> 0" "timeLimit st \<le> 0"
    using three_frames_archive [OF assms that] .
  show ?thesis
    using first nums incr scen length_pad_ge [of k] length_pad_small [of k] nat_of_string_pad [of k]
    by blast
qed

text \<open>The scenario at rate 10.\<close>

theorem archive_entries_numbered_witness:
  "\<exists>s. recording \<lparr>has_Whammy = False, has_MediaRecorder = False, has_GIF = False,
                    has_Tar = True, has_download = False\<rparr>
           (default_settings\<lparr>format := ''png'', settings.framerate := 10\<rparr>) 0
           [(0, Canvas 4 3 (Gives (Blob (Some [1])))), (100, Canvas 4 3 (Gives (Blob (Some [2])))),
            (200, Canvas 4 3 (Gives (Blob (Some [3]))))] = Inr s \<and>
        artifacts s = [[(''000000.png'', [1]), (''000001.png'', [2]), (''000002.png'', [3])]]"
  using archive_entries_numbered [of
      "\<lparr>has_Whammy = False, has_MediaRecorder = False, has_GIF = False,
        has_Tar = True, has_download = False\<rparr>" "[]" "''.png''"
      "default_settings\<lparr>format := ''png'', settings.framerate := 10\<rparr>" 0 0 0
      0 0 4 3 "[1]" 100 "[2]" 200 "[3]"]
  by (simp add: default_settings_def)

text \<open>
  At one frame per second and an auto-save every second, the second frame rotates: the
  part handed over holds \<^verbatim>\<open>000000.png\<close> and \<^verbatim>\<open>000001.png\<close>, and the third frame
  opens the new part as \<^verbatim>\<open>000002.png\<close>.
\<close>

theorem rotation_keeps_counter_witness:
  "\<exists>e1 e2 e3.
     adds \<lparr>has_Whammy = False, has_MediaRecorder = False, has_GIF = False,
           has_Tar = True, has_download = True\<rparr> [Blob (Some [1])]
       (DCTarEncoder_start \<lparr>has_Whammy = False, has_MediaRecorder = False, has_GIF = False,
                            has_Tar = True, has_download = True\<rparr>
          (new_archive_encoder ''.png''
             (default_settings\<lparr>format := ''png'', settings.framerate := 1, autoSaveTime := 1\<rparr>)))
       = Inr e1 \<and>
     onload \<lparr>has_Whammy = False, has_MediaRecorder = False, has_GIF = False,
             has_Tar = True, has_download = True\<rparr> [2] e1 = Inr e2 \<and>
     saved e2 = [[(''000000.png'', [1]), (''000001.png'', [2])]] \<and> tape e2 = Some [] \<and>
     count e2 = 2 \<and> DCTarEncoder.frames e2 = 0 \<and> part e2 = 2 \<and>
     onload \<lparr>has_Whammy = False, has_MediaRecorder = False, has_GIF = False,
             has_Tar = True, has_download = True\<rparr> [3] e2 = Inr e3 \<and>
     tape e3 = Some [(''000002.png'', [3])]"
proof -
  let ?pf = "\<lparr>has_Whammy = False, has_MediaRecorder = False, has_GIF = False,
              has_Tar = True, has_download = True\<rparr>"
  let ?st = "default_settings\<lparr>format := ''png'', settings.framerate := 1, autoSaveTime := 1\<rparr>"
  let ?e0 = "DCTarEncoder_start ?pf (new_archive_encoder ''.png'' ?st)"
  have tar: "has_Tar ?pf" by simp
  note f = started_archive_fields [OF tar, of "''.png''" ?st]
  have nd: "\<not> autoSave_due (encoder_base.settings ?e0) (DCTarEncoder.frames ?e0)"
    by (simp add: f autoSave_never_due_at_zero)
  let ?e1 = "step (?e0\<lparr>tape := Some ([] @ [(entry_name (fileExtension ?e0) (count ?e0), [1])]),
                          count := count ?e0 + 1,
                          DCTarEncoder.frames := DCTarEncoder.frames ?e0 + 1\<rparr>)"
  have e1: "adds ?pf [Blob (Some [1])] ?e0 = Inr ?e1"
    using onload_append [OF f(1) nd, of ?pf "[1]"] by (simp add: DCTarEncoder_add_def)
  have g: "tape ?e1 = Some [(''000000.png'', [1])]" "count ?e1 = 1" "DCTarEncoder.frames ?e1 = 1"
    "fileExtension ?e1 = ''.png''" "encoder_base.settings ?e1 = ?st" "saved ?e1 = []" "part ?e1 = 1"
    by (simp_all add: f step_def emit_logged_def entry_name_def pad_first_three
        DCTarEncoder_start_def DCTarEncoder_dispose_def new_archive_encoder_def new_DCTarEncoder_def)
  have due: "autoSave_due (encoder_base.settings ?e1) (DCTarEncoder.frames ?e1)"
    unfolding g by (simp add: due_at_one default_settings_def)
  have names: "entry_name ''.png'' 1 = ''000001.png''" "entry_name ''.png'' (1 + 1) = ''000002.png''"
    by (simp_all add: entry_name_def pad_first_three)
  from rotation_keeps_counter [OF tar, of ?e1 "[(''000000.png'', [1])]" "[2]" "[3]" "[]" "[]" ?st]
    g(1) due
  obtain e2 e3 where
    "onload ?pf [2] ?e1 = Inr e2"
    "saved e2 = saved ?e1 @ [[(''000000.png'', [1])] @ [(entry_name (fileExtension ?e1) (count ?e1), [2])]]"
    "tape e2 = Some []" "count e2 = count ?e1 + 1" "DCTarEncoder.frames e2 = 0"
    "part e2 = part ?e1 + 1"
    "onload ?pf [3] e2 = Inr e3"
    "tape e3 = Some [(entry_name (fileExtension ?e1) (count ?e1 + 1), [3])]"
    by blast
  then show ?thesis
    using e1 unfolding g names by (intro exI [of _ ?e1] exI [of _ e2] exI [of _ e3]) simp
qed

end
